theory Spec2Isabelle
  imports Complex_Main "HOL-Library.List_Lexorder"
begin

section \<open>The text-similarity engine of services/similarity.py\<close>

text \<open>
  The embedding follows \<^verbatim>\<open>src/services/similarity.py\<close> function by function.
  \<^item> A Python \<^verbatim>\<open>str\<close> is the list of its Unicode code points, a list of natural
    numbers; strings are ordered as Python orders them, lexicographically by code point.
  \<^item> The character classes of the Python runtime (what \<^verbatim>\<open>\w\<close> matches, what
    \<^verbatim>\<open>str.split\<close> and \<^verbatim>\<open>str.strip\<close> take for white space, what
    \<^verbatim>\<open>str.lower\<close> maps a code point to) are a parameter of every function that
    uses them, so a theorem with a free \<open>U\<close> holds for every such table, Python's
    included.
  \<^item> A Python \<^verbatim>\<open>float\<close> is a \<^typ>\<open>real\<close>: arithmetic is exact, and
    \<^verbatim>\<open>round(x, n)\<close> rounds the exact value half to even, as the built-in does on
    the value it is given.
  \<^item> Every operation of the source that can raise (\<^verbatim>\<open>/\<close>, \<^verbatim>\<open>math.log\<close>,
    \<^verbatim>\<open>math.sqrt\<close>, a dictionary lookup, tuple unpacking) returns a value of
    \<^verbatim>\<open>py_error + 'a\<close> in the model, and the callers thread it through.
\<close>

subsection \<open>Errors and the float primitives\<close>

datatype py_error = ZeroDivisionError | ValueError | KeyError

definition res_bind :: "py_error + 'a \<Rightarrow> ('a \<Rightarrow> py_error + 'b) \<Rightarrow> py_error + 'b" where
  "res_bind r f = (case r of Inl e \<Rightarrow> Inl e | Inr v \<Rightarrow> f v)"

fun res_mapM :: "('a \<Rightarrow> py_error + 'b) \<Rightarrow> 'a list \<Rightarrow> py_error + 'b list" where
  "res_mapM f [] = Inr []"
| "res_mapM f (x # xs) =
     res_bind (f x) (\<lambda>y. res_bind (res_mapM f xs) (\<lambda>ys. Inr (y # ys)))"

definition py_div :: "real \<Rightarrow> real \<Rightarrow> py_error + real" where
  "py_div a b = (if b = 0 then Inl ZeroDivisionError else Inr (a / b))"

definition math_log :: "real \<Rightarrow> py_error + real" where
  "math_log x = (if x \<le> 0 then Inl ValueError else Inr (ln x))"

definition math_sqrt :: "real \<Rightarrow> py_error + real" where
  "math_sqrt x = (if x < 0 then Inl ValueError else Inr (sqrt x))"

definition round_half_even :: "real \<Rightarrow> int" where
  "round_half_even y =
     (let f = \<lfloor>y\<rfloor>; d = y - of_int f
      in if d < 1 / 2 then f else if 1 / 2 < d then f + 1
         else if even f then f else f + 1)"

definition py_round :: "real \<Rightarrow> nat \<Rightarrow> real" where
  "py_round x ndigits = of_int (round_half_even (x * 10 ^ ndigits)) / 10 ^ ndigits"

subsection \<open>Strings and the character classes\<close>

type_synonym pystr = "nat list"

text \<open>A string literal of the source, as its code points.\<close>

definition str :: "string \<Rightarrow> pystr" where
  "str s = map of_char s"

text \<open>
  The character tables of the Python runtime, which are not part of the repository and
  are taken as a parameter: \<open>is_word U c\<close> when \<^verbatim>\<open>\w\<close> matches the code point
  \<open>c\<close>, \<open>is_space U c\<close> when \<^verbatim>\<open>str.split\<close> and \<^verbatim>\<open>str.strip\<close> take \<open>c\<close>
  for white space, and \<open>lower_at U pre c post\<close> for the code points that
  \<^verbatim>\<open>str.lower\<close> puts in the place of \<open>c\<close> when \<open>c\<close> stands between \<open>pre\<close> and
  \<open>post\<close> (one code point can become several, and the Greek capital sigma depends on
  its neighbours).
\<close>

record unicode_db =
  is_word :: "nat \<Rightarrow> bool"
  is_space :: "nat \<Rightarrow> bool"
  lower_at :: "pystr \<Rightarrow> nat \<Rightarrow> pystr \<Rightarrow> pystr"

fun lower_from :: "unicode_db \<Rightarrow> pystr \<Rightarrow> pystr \<Rightarrow> pystr" where
  "lower_from U pre [] = []"
| "lower_from U pre (c # post) = lower_at U pre c post @ lower_from U (pre @ [c]) post"

definition lower :: "unicode_db \<Rightarrow> pystr \<Rightarrow> pystr" where
  "lower U s = lower_from U [] s"

text \<open>The tables below code point 128, where they are those of ASCII: the word characters
  \<^verbatim>\<open>[0-9A-Z_a-z]\<close>, the white space \<^verbatim>\<open>\t \n \v \f \r\<close>, the four separators
  \<^verbatim>\<open>\x1c\<close> to \<^verbatim>\<open>\x1f\<close> and the blank, and \<^verbatim>\<open>A-Z\<close> lowered by adding 32.\<close>

definition ascii_db :: unicode_db where
  "ascii_db =
     \<lparr>is_word = (\<lambda>c. (48 \<le> c \<and> c \<le> 57) \<or> (65 \<le> c \<and> c \<le> 90) \<or> c = 95
                      \<or> (97 \<le> c \<and> c \<le> 122)),
      is_space = (\<lambda>c. (9 \<le> c \<and> c \<le> 13) \<or> (28 \<le> c \<and> c \<le> 32)),
      lower_at = (\<lambda>pre c post. [if 65 \<le> c \<and> c \<le> 90 then c + 32 else c])\<rparr>"

text \<open>A table that is the ASCII one on the code points below 128, as Python's is.\<close>

definition agrees_on_ascii :: "unicode_db \<Rightarrow> bool" where
  "agrees_on_ascii U =
     (\<forall>c pre post. c < 128 \<longrightarrow>
        is_word U c = is_word ascii_db c \<and> is_space U c = is_space ascii_db c
        \<and> lower_at U pre c post = lower_at ascii_db pre c post)"

definition ascii_text :: "pystr \<Rightarrow> bool" where
  "ascii_text s = list_all (\<lambda>c. c < 128) s"

subsection \<open>Tokenizer primitives: the regular expressions and string methods used\<close>

text \<open>The class \<^verbatim>\<open>[.!?]\<close> of \<^verbatim>\<open>re.split\<close> and the class \<^verbatim>\<open>[,.!?;:]\<close> of the
  punctuation count.\<close>

definition is_terminal :: "nat \<Rightarrow> bool" where
  "is_terminal c = (c = of_char CHR ''.'' \<or> c = of_char CHR ''!'' \<or> c = of_char CHR ''?'')"

definition is_punct :: "nat \<Rightarrow> bool" where
  "is_punct c = (c = of_char CHR '','' \<or> c = of_char CHR ''.'' \<or> c = of_char CHR ''!''
     \<or> c = of_char CHR ''?'' \<or> c = of_char CHR '';'' \<or> c = of_char CHR '':'')"

text \<open>The maximal non-empty runs of characters satisfying \<open>P\<close>, left to right:
  what \<^verbatim>\<open>re.findall(r"\b\w+\b", s)\<close> returns for the word characters and what
  \<^verbatim>\<open>s.split()\<close> returns for the characters that are not white space.\<close>

fun runs_acc :: "(nat \<Rightarrow> bool) \<Rightarrow> pystr \<Rightarrow> pystr \<Rightarrow> pystr list" where
  "runs_acc P cur [] = (if cur = [] then [] else [rev cur])"
| "runs_acc P cur (c # cs) =
     (if P c then runs_acc P (c # cur) cs
      else if cur = [] then runs_acc P [] cs
      else rev cur # runs_acc P [] cs)"

definition findall_words :: "unicode_db \<Rightarrow> pystr \<Rightarrow> pystr list" where
  "findall_words U s = runs_acc (is_word U) [] s"

definition str_split :: "unicode_db \<Rightarrow> pystr \<Rightarrow> pystr list" where
  "str_split U s = runs_acc (\<lambda>c. \<not> is_space U c) [] s"

definition findall_punct :: "pystr \<Rightarrow> pystr list" where
  "findall_punct s = map (\<lambda>c. [c]) (filter is_punct s)"

text \<open>\<^verbatim>\<open>re.split(r'[.!?]', s)\<close>: the pieces between the terminal marks, empty
  pieces included.\<close>

fun split_acc :: "pystr \<Rightarrow> pystr \<Rightarrow> pystr list" where
  "split_acc cur [] = [rev cur]"
| "split_acc cur (c # cs) =
     (if is_terminal c then rev cur # split_acc [] cs else split_acc (c # cur) cs)"

definition re_split_terminal :: "pystr \<Rightarrow> pystr list" where
  "re_split_terminal s = split_acc [] s"

definition str_strip :: "unicode_db \<Rightarrow> pystr \<Rightarrow> pystr" where
  "str_strip U s = rev (dropWhile (is_space U) (rev (dropWhile (is_space U) s)))"

subsection \<open>StylisticFingerprint\<close>

definition compute_fingerprint :: "unicode_db \<Rightarrow> pystr \<Rightarrow> py_error + real list" where
  "compute_fingerprint U text =
     (let sentences = map (str_strip U)
            (filter (\<lambda>s. str_strip U s \<noteq> []) (re_split_terminal text));
          words = findall_words U (lower U text);
          punctuation = findall_punct text
      in
      res_bind (if sentences \<noteq> []
                then py_div (real (sum_list (map (\<lambda>s. length (str_split U s)) sentences)))
                            (real (length sentences))
                else Inr 0) (\<lambda>avg_sentence.
      res_bind (if words \<noteq> []
                then py_div (real (sum_list (map length words))) (real (length words))
                else Inr 0) (\<lambda>avg_word.
      res_bind (if words \<noteq> []
                then py_div (real (length punctuation)) (real (length words))
                else Inr 0) (\<lambda>punc_density.
      res_bind (if words \<noteq> []
                then py_div (real (card (set words))) (real (length words))
                else Inr 0) (\<lambda>lex_div.
      res_bind (if sentences \<noteq> []
                then py_div (real (length (filter (\<lambda>s. length (str_split U s) < 5) sentences)))
                            (real (length sentences))
                else Inr 0) (\<lambda>short_ratio.
      Inr (map (\<lambda>x. py_round x 3)
             [avg_sentence, avg_word, punc_density, lex_div, short_ratio])))))))"

text \<open>The loop of \<^verbatim>\<open>compare\<close> over \<^verbatim>\<open>zip(fp1, fp2)\<close>, appending one
  normalised difference per position.\<close>

fun diffs_loop :: "(real \<times> real) list \<Rightarrow> real \<Rightarrow> py_error + real list" where
  "diffs_loop [] epsilon = Inr []"
| "diffs_loop ((a, b) # ps) epsilon =
     res_bind (if a = 0 \<and> b = 0 then Inr 0 else py_div \<bar>a - b\<bar> (max a b + epsilon)) (\<lambda>d.
     res_bind (diffs_loop ps epsilon) (\<lambda>ds. Inr (d # ds)))"

definition compare :: "real list \<Rightarrow> real list \<Rightarrow> real \<Rightarrow> py_error + real" where
  "compare fp1 fp2 epsilon =
     res_bind (diffs_loop (zip fp1 fp2) epsilon) (\<lambda>diffs.
     res_bind (if diffs \<noteq> []
               then res_bind (py_div (sum_list diffs) (real (length diffs))) (\<lambda>m. Inr (1 - m))
               else Inr 0) (\<lambda>score.
     Inr (py_round score 4)))"

text \<open>The default value of the parameter \<^verbatim>\<open>epsilon\<close>, \<^verbatim>\<open>1e-8\<close>.\<close>

definition epsilon_default :: real where
  "epsilon_default = 1 / 10 ^ 8"

subsection \<open>JaccardSimilarity\<close>

definition jaccard_compute :: "unicode_db \<Rightarrow> pystr \<Rightarrow> pystr \<Rightarrow> py_error + real" where
  "jaccard_compute U text1 text2 =
     (let set1 = set (findall_words U (lower U text1));
          set2 = set (findall_words U (lower U text2));
          union = set1 \<union> set2;
          inter = set1 \<inter> set2
      in if union \<noteq> {}
         then res_bind (py_div (real (card inter)) (real (card union))) (\<lambda>q. Inr (py_round q 4))
         else Inr 0)"

subsection \<open>TfIdfSimilarity\<close>

record tfidf_model =
  texts :: "pystr list"
  vocab :: "pystr list"
  idf :: "pystr \<rightharpoonup> real"

definition build_vocab :: "unicode_db \<Rightarrow> pystr list \<Rightarrow> pystr list" where
  "build_vocab U txts =
     (let tokenized = map (\<lambda>t. findall_words U (lower U t)) txts
      in sorted_list_of_set (set (concat tokenized)))"

text \<open>The document-frequency dictionary \<^verbatim>\<open>df\<close> of \<^verbatim>\<open>_compute_idf\<close>.\<close>

definition doc_freq :: "pystr list list \<Rightarrow> pystr list \<Rightarrow> (pystr \<rightharpoonup> nat)" where
  "doc_freq tokenized voc =
     fold (\<lambda>w m. m(w \<mapsto> length (filter (\<lambda>toks. w \<in> set toks) tokenized))) voc Map.empty"

fun idf_loop :: "nat \<Rightarrow> (pystr \<rightharpoonup> nat) \<Rightarrow> pystr list \<Rightarrow> (pystr \<rightharpoonup> real)
    \<Rightarrow> py_error + (pystr \<rightharpoonup> real)" where
  "idf_loop N df [] acc = Inr acc"
| "idf_loop N df (w # ws) acc =
     (case df w of
        None \<Rightarrow> Inl KeyError
      | Some d \<Rightarrow>
          res_bind (py_div (real (N + 1)) (real (d + 1))) (\<lambda>q.
          res_bind (math_log q) (\<lambda>l.
          idf_loop N df ws (acc(w \<mapsto> l + 1)))))"

definition compute_idf ::
    "unicode_db \<Rightarrow> pystr list \<Rightarrow> pystr list \<Rightarrow> py_error + (pystr \<rightharpoonup> real)" where
  "compute_idf U txts voc =
     (let N = length txts;
          tokenized = map (\<lambda>t. findall_words U (lower U t)) txts;
          df = doc_freq tokenized voc
      in idf_loop N df voc Map.empty)"

text \<open>The constructor \<^verbatim>\<open>TfIdfSimilarity.__init__\<close>.\<close>

definition tfidf_init :: "unicode_db \<Rightarrow> pystr list \<Rightarrow> py_error + tfidf_model" where
  "tfidf_init U txts =
     (let voc = build_vocab U txts
      in res_bind (compute_idf U txts voc) (\<lambda>i.
         Inr \<lparr>texts = txts, vocab = voc, idf = i\<rparr>))"

text \<open>The inner loop of \<^verbatim>\<open>compute_vectors\<close> over the vocabulary.\<close>

fun vec_loop :: "pystr list \<Rightarrow> (pystr \<rightharpoonup> real) \<Rightarrow> pystr list \<Rightarrow> py_error + real list" where
  "vec_loop tokens idfm [] = Inr []"
| "vec_loop tokens idfm (w # ws) =
     res_bind (if 0 < count_list tokens w
               then res_bind (math_log (real (count_list tokens w))) (\<lambda>l. Inr (1 + l))
               else Inr 0) (\<lambda>tf.
     res_bind (case idfm w of None \<Rightarrow> Inl KeyError | Some i \<Rightarrow> Inr (tf * i)) (\<lambda>x.
     res_bind (vec_loop tokens idfm ws) (\<lambda>rest. Inr (x # rest))))"

definition normalize_vec :: "real list \<Rightarrow> py_error + real list" where
  "normalize_vec vec =
     res_bind (math_sqrt (sum_list (map (\<lambda>x. x * x) vec))) (\<lambda>norm.
     if norm \<noteq> 0 then res_mapM (\<lambda>x. py_div x norm) vec else Inr vec)"

text \<open>The outer loop of \<^verbatim>\<open>compute_vectors\<close> over the texts.\<close>

fun vectors_loop :: "unicode_db \<Rightarrow> tfidf_model \<Rightarrow> pystr list \<Rightarrow> py_error + real list list" where
  "vectors_loop U m [] = Inr []"
| "vectors_loop U m (text # rest) =
     res_bind (vec_loop (findall_words U (lower U text)) (idf m) (vocab m)) (\<lambda>vec.
     res_bind (normalize_vec vec) (\<lambda>v.
     res_bind (vectors_loop U m rest) (\<lambda>vs. Inr (v # vs))))"

definition compute_vectors :: "unicode_db \<Rightarrow> tfidf_model \<Rightarrow> py_error + real list list" where
  "compute_vectors U m = vectors_loop U m (texts m)"

definition tfidf_compare :: "real list \<Rightarrow> real list \<Rightarrow> real" where
  "tfidf_compare vec1 vec2 =
     (let dot = sum_list (map (\<lambda>(a, b). a * b) (zip vec1 vec2))
      in if vec1 \<noteq> [] \<and> vec2 \<noteq> [] then py_round dot 4 else 0)"

subsection \<open>TextComparer\<close>

record comparison =
  stylistic :: real
  jaccard :: real
  tfidf :: real

definition compare_all :: "unicode_db \<Rightarrow> pystr \<Rightarrow> pystr \<Rightarrow> py_error + comparison" where
  "compare_all U text1 text2 =
     res_bind (compute_fingerprint U text1) (\<lambda>sf1.
     res_bind (compute_fingerprint U text2) (\<lambda>sf2.
     res_bind (compare sf1 sf2 epsilon_default) (\<lambda>style_score.
     res_bind (jaccard_compute U text1 text2) (\<lambda>jaccard_score.
     res_bind (tfidf_init U [text1, text2]) (\<lambda>model.
     res_bind (compute_vectors U model) (\<lambda>vs.
     (case vs of
        [v1, v2] \<Rightarrow>
          Inr \<lparr>stylistic = style_score, jaccard = jaccard_score, tfidf = tfidf_compare v1 v2\<rparr>
      | _ \<Rightarrow> Inl ValueError)))))))"

section \<open>Closed forms of the loops\<close>

text \<open>The values the loops of \<^verbatim>\<open>TfIdfSimilarity\<close> compute when nothing raises;
  the lemmas below show that they always do.\<close>

definition df_count :: "unicode_db \<Rightarrow> pystr list \<Rightarrow> pystr \<Rightarrow> nat" where
  "df_count U txts w = length (filter (\<lambda>t. w \<in> set (findall_words U (lower U t))) txts)"

definition idf_weight :: "unicode_db \<Rightarrow> pystr list \<Rightarrow> pystr \<Rightarrow> real" where
  "idf_weight U txts w = ln (real (length txts + 1) / real (df_count U txts w + 1)) + 1"

definition tf_weight :: "pystr list \<Rightarrow> pystr \<Rightarrow> real" where
  "tf_weight toks w =
     (if 0 < count_list toks w then 1 + ln (real (count_list toks w)) else 0)"

definition raw_vec :: "unicode_db \<Rightarrow> pystr list \<Rightarrow> pystr \<Rightarrow> real list" where
  "raw_vec U txts t =
     map (\<lambda>w. tf_weight (findall_words U (lower U t)) w * idf_weight U txts w)
       (build_vocab U txts)"

definition sum_sq :: "real list \<Rightarrow> real" where
  "sum_sq v = sum_list (map (\<lambda>x. x * x) v)"

definition unit_vec :: "real list \<Rightarrow> real list" where
  "unit_vec v = (if sqrt (sum_sq v) \<noteq> 0 then map (\<lambda>x. x / sqrt (sum_sq v)) v else v)"

definition dot :: "real list \<Rightarrow> real list \<Rightarrow> real" where
  "dot v1 v2 = sum_list (map (\<lambda>(a, b). a * b) (zip v1 v2))"

section \<open>Basic facts\<close>

lemma res_bind_Inr [simp]: "res_bind (Inr v) f = f v"
  by (simp add: res_bind_def)

lemma res_bind_Inl [simp]: "res_bind (Inl e) f = Inl e"
  by (simp add: res_bind_def)

lemma round_half_even_of_int [simp]: "round_half_even (of_int k) = k"
  by (simp add: round_half_even_def)

lemma py_round_zero [simp]: "py_round 0 n = 0"
  using round_half_even_of_int [of 0] by (simp add: py_round_def)

subsection \<open>Rounding and the stylistic comparison\<close>

lemma round_half_even_le: "y \<le> of_int k \<Longrightarrow> round_half_even y \<le> k"
  unfolding round_half_even_def Let_def
  by (auto simp: not_less) linarith+

lemma round_half_even_ge: "of_int k \<le> y \<Longrightarrow> k \<le> round_half_even y"
  unfolding round_half_even_def Let_def
  by (auto simp: not_less) linarith+

lemma round_half_even_eqI:
  "of_int k - 1 / 2 < y \<Longrightarrow> y < of_int k + 1 / 2 \<Longrightarrow> round_half_even y = k"
  unfolding round_half_even_def Let_def
  by (auto simp: not_less) linarith+

lemma py_round_nonneg: "0 \<le> x \<Longrightarrow> 0 \<le> py_round x n"
  using round_half_even_ge [of 0 "x * 10 ^ n"] by (simp add: py_round_def)

lemma py_round_le_one: "x \<le> 1 \<Longrightarrow> py_round x n \<le> 1"
proof -
  assume "x \<le> 1"
  then have "x * 10 ^ n \<le> of_int (10 ^ n)" by simp
  then have "round_half_even (x * 10 ^ n) \<le> 10 ^ n" by (rule round_half_even_le)
  then have "real_of_int (round_half_even (x * 10 ^ n)) \<le> 10 ^ n"
    by (metis of_int_le_iff of_int_numeral of_int_power)
  then show ?thesis by (simp add: py_round_def divide_le_eq)
qed

lemma py_round_one [simp]: "py_round 1 n = 1"
proof -
  have "round_half_even (of_int (10 ^ n)) = 10 ^ n" by (rule round_half_even_of_int)
  then show ?thesis by (simp add: py_round_def)
qed

lemma diffs_loop_nonneg:
  "0 < eps \<Longrightarrow> list_all (\<lambda>(a, b). 0 \<le> a \<and> 0 \<le> b) ps \<Longrightarrow>
   \<exists>ds. diffs_loop ps eps = Inr ds \<and> length ds = length ps \<and> list_all (\<lambda>d. 0 \<le> d \<and> d \<le> 1) ds"
proof (induction ps)
  case Nil
  then show ?case by simp
next
  case (Cons p ps)
  obtain a b where p: "p = (a, b)" by (cases p)
  from Cons obtain ds where ds: "diffs_loop ps eps = Inr ds" "length ds = length ps"
    "list_all (\<lambda>d. 0 \<le> d \<and> d \<le> 1) ds" by auto
  from Cons.prems p have ab: "0 \<le> a" "0 \<le> b" by auto
  have pos: "0 < max a b + eps" using ab Cons.prems(1) by (simp add: max_def)
  have "\<bar>a - b\<bar> \<le> max a b + eps" using ab Cons.prems(1) by (simp add: max_def abs_if)
  then have "\<bar>a - b\<bar> / (max a b + eps) \<le> 1" using pos by (simp add: divide_le_eq)
  moreover have "0 \<le> \<bar>a - b\<bar> / (max a b + eps)" using pos by simp
  ultimately show ?case using pos ds p by (simp add: py_div_def)
qed

lemma sum_list_unit_bounds:
  "list_all (\<lambda>d. 0 \<le> d \<and> d \<le> (1::real)) ds \<Longrightarrow> 0 \<le> sum_list ds \<and> sum_list ds \<le> real (length ds)"
  by (induction ds) auto

lemma compare_nonneg_range:
  assumes "0 < eps" "list_all (\<lambda>x. 0 \<le> x) fp1" "list_all (\<lambda>x. 0 \<le> x) fp2"
  shows "\<exists>s. compare fp1 fp2 eps = Inr s \<and> 0 \<le> s \<and> s \<le> 1"
proof -
  have "list_all (\<lambda>(a, b). 0 \<le> a \<and> 0 \<le> b) (zip fp1 fp2)"
    using assms(2,3) by (auto simp: list_all_iff dest: set_zip_leftD set_zip_rightD)
  from diffs_loop_nonneg [OF assms(1) this]
  obtain ds where ds: "diffs_loop (zip fp1 fp2) eps = Inr ds"
    "list_all (\<lambda>d. 0 \<le> d \<and> d \<le> 1) ds" by auto
  show ?thesis
  proof (cases "ds = []")
    case True
    with ds show ?thesis by (simp add: compare_def)
  next
    case False
    from sum_list_unit_bounds [OF ds(2)]
    have b: "0 \<le> sum_list ds" "sum_list ds \<le> real (length ds)" by auto
    have len: "0 < real (length ds)" using False by simp
    have m: "0 \<le> sum_list ds / real (length ds)" "sum_list ds / real (length ds) \<le> 1"
      using b len by (simp_all add: divide_le_eq)
    show ?thesis using ds False len m
      by (simp add: compare_def py_div_def py_round_nonneg py_round_le_one)
  qed
qed

subsection \<open>Fingerprints, comparison and the Jaccard score\<close>

lemma compute_fingerprint_ok:
  "\<exists>fp. compute_fingerprint U t = Inr fp \<and> length fp = 5 \<and> list_all (\<lambda>x. 0 \<le> x) fp"
  by (simp add: compute_fingerprint_def Let_def py_div_def py_round_nonneg)

lemma diffs_loop_same:
  "0 < eps \<Longrightarrow> list_all (\<lambda>x. 0 \<le> x) fp \<Longrightarrow>
   diffs_loop (zip fp fp) eps = Inr (replicate (length fp) 0)"
  by (induction fp) (auto simp: py_div_def)

lemma compare_same:
  assumes "0 < eps" "fp \<noteq> []" "list_all (\<lambda>x. 0 \<le> x) fp"
  shows "compare fp fp eps = Inr 1"
  using assms by (simp add: compare_def diffs_loop_same py_div_def sum_list_replicate)

lemma diffs_loop_swap: "diffs_loop (map (\<lambda>(a, b). (b, a)) ps) eps = diffs_loop ps eps"
proof (induction ps)
  case Nil
  then show ?case by simp
next
  case (Cons p ps)
  obtain a b where p: "p = (a, b)" by (cases p)
  show ?case using Cons p by (simp add: abs_minus_commute max.commute conj_commute)
qed

lemma compare_commute: "compare fp1 fp2 eps = compare fp2 fp1 eps"
proof -
  have "zip fp2 fp1 = map (\<lambda>(a, b). (b, a)) (zip fp1 fp2)" by (rule zip_commute)
  then show ?thesis by (simp add: compare_def diffs_loop_swap)
qed

lemma jaccard_commute: "jaccard_compute U a b = jaccard_compute U b a"
  by (simp add: jaccard_compute_def Let_def Un_commute Int_commute)

lemma jaccard_range: "\<exists>j. jaccard_compute U a b = Inr j \<and> 0 \<le> j \<and> j \<le> 1"
proof -
  let ?A = "set (findall_words U (lower U a))" and ?B = "set (findall_words U (lower U b))"
  show ?thesis
  proof (cases "?A \<union> ?B = {}")
    case True
    then show ?thesis by (simp add: jaccard_compute_def)
  next
    case False
    have fin: "finite (?A \<union> ?B)" by simp
    then have pos: "0 < card (?A \<union> ?B)" using False by (simp add: card_gt_0_iff)
    have "card (?A \<inter> ?B) \<le> card (?A \<union> ?B)" by (rule card_mono) auto
    then have "real (card (?A \<inter> ?B)) / real (card (?A \<union> ?B)) \<le> 1"
      using pos by (simp add: divide_le_eq)
    moreover have "0 \<le> real (card (?A \<inter> ?B)) / real (card (?A \<union> ?B))" by simp
    ultimately show ?thesis using False pos
      by (simp add: jaccard_compute_def Let_def py_div_def py_round_nonneg py_round_le_one)
  qed
qed

lemma jaccard_same: "findall_words U (lower U t) \<noteq> [] \<Longrightarrow> jaccard_compute U t t = Inr 1"
  by (simp add: jaccard_compute_def py_div_def card_gt_0_iff)

subsection \<open>The TF-IDF loops never raise\<close>

lemma fold_upd_lookup:
  "fold (\<lambda>w m. m(w \<mapsto> g w)) ws m0 = (\<lambda>w. if w \<in> set ws then Some (g w) else m0 w)"
  by (induction ws arbitrary: m0) (auto simp: fun_eq_iff)

lemma doc_freq_lookup:
  "doc_freq (map (\<lambda>t. findall_words U (lower U t)) txts) voc =
     (\<lambda>w. if w \<in> set voc then Some (df_count U txts w) else None)"
  unfolding df_count_def by (simp add: doc_freq_def fold_upd_lookup filter_map o_def)

lemma idf_loop_closed:
  "(\<And>w. w \<in> set ws \<Longrightarrow> df w = Some (d w)) \<Longrightarrow>
   idf_loop N df ws acc =
     Inr (\<lambda>w. if w \<in> set ws then Some (ln (real (N + 1) / real (d w + 1)) + 1) else acc w)"
proof (induction ws arbitrary: acc)
  case Nil
  then show ?case by simp
next
  case (Cons w ws)
  have pos: "0 < real (N + 1) / real (d w + 1)" by simp
  have nz: "real (d w + 1) \<noteq> 0" by simp
  have dfw: "df w = Some (d w)" using Cons.prems by simp
  have rest: "\<And>x. x \<in> set ws \<Longrightarrow> df x = Some (d x)" using Cons.prems by simp
  show ?case
    using pos nz
    by (simp only: idf_loop.simps dfw option.case py_div_def math_log_def res_bind_Inr
          Cons.IH [OF rest] if_False not_le [symmetric])
       (auto simp: fun_eq_iff)
qed

lemma compute_idf_closed:
  "compute_idf U txts voc = Inr (\<lambda>w. if w \<in> set voc then Some (idf_weight U txts w) else None)"
proof -
  have "idf_loop (length txts) (doc_freq (map (\<lambda>t. findall_words U (lower U t)) txts) voc) voc Map.empty
      = Inr (\<lambda>w. if w \<in> set voc then Some (ln (real (length txts + 1) / real (df_count U txts w + 1)) + 1) else Map.empty w)"
    by (rule idf_loop_closed) (simp add: doc_freq_lookup)
  then show ?thesis unfolding idf_weight_def by (simp add: compute_idf_def Let_def)
qed

lemma tfidf_init_closed:
  "tfidf_init U txts = Inr \<lparr>texts = txts, vocab = build_vocab U txts,
     idf = (\<lambda>w. if w \<in> set (build_vocab U txts) then Some (idf_weight U txts w) else None)\<rparr>"
  by (simp add: tfidf_init_def Let_def compute_idf_closed)

lemma df_count_le: "df_count U txts w \<le> length txts"
  by (simp add: df_count_def)

lemma idf_weight_ge_one: "1 \<le> idf_weight U txts w"
proof -
  have "real (df_count U txts w + 1) \<le> real (length txts + 1)"
    using df_count_le [of U txts w] by simp
  then have "1 \<le> real (length txts + 1) / real (df_count U txts w + 1)"
    by (simp add: le_divide_eq)
  then have "0 \<le> ln (real (length txts + 1) / real (df_count U txts w + 1))"
    by simp
  then show ?thesis by (simp add: idf_weight_def)
qed

lemma idf_weight_all: "df_count U txts w = length txts \<Longrightarrow> idf_weight U txts w = 1"
  by (simp add: idf_weight_def)

lemma tf_weight_nonneg: "0 \<le> tf_weight toks w"
proof (cases "0 < count_list toks w")
  case True
  then have "1 \<le> real (count_list toks w)" by simp
  then have "0 \<le> ln (real (count_list toks w))" by simp
  then show ?thesis by (simp add: tf_weight_def)
next
  case False
  then show ?thesis by (simp add: tf_weight_def)
qed

lemma tf_weight_ge_one: "w \<in> set toks \<Longrightarrow> 1 \<le> tf_weight toks w"
proof -
  assume "w \<in> set toks"
  then have "count_list toks w \<noteq> 0" by (simp only: count_list_0_iff not_not)
  then have c: "0 < count_list toks w" by simp
  then have "1 \<le> real (count_list toks w)" by simp
  then have "0 \<le> ln (real (count_list toks w))" by simp
  then show ?thesis using c by (simp add: tf_weight_def)
qed

lemma tf_weight_absent: "w \<notin> set toks \<Longrightarrow> tf_weight toks w = 0"
  using count_notin [of w toks] by (simp add: tf_weight_def)

lemma vec_loop_closed:
  "(\<And>w. w \<in> set ws \<Longrightarrow> idfm w = Some (i w)) \<Longrightarrow>
   vec_loop toks idfm ws = Inr (map (\<lambda>w. tf_weight toks w * i w) ws)"
proof (induction ws)
  case Nil
  then show ?case by simp
next
  case (Cons w ws)
  have iw: "idfm w = Some (i w)" using Cons.prems by simp
  have rest: "vec_loop toks idfm ws = Inr (map (\<lambda>w. tf_weight toks w * i w) ws)"
    using Cons by simp
  show ?case
  proof (cases "0 < count_list toks w")
    case True
    then have "\<not> real (count_list toks w) \<le> 0" by simp
    then show ?thesis using True iw rest by (simp add: math_log_def tf_weight_def)
  next
    case False
    then show ?thesis using iw rest by (simp add: tf_weight_def)
  qed
qed

lemma res_mapM_div: "b \<noteq> 0 \<Longrightarrow> res_mapM (\<lambda>x. py_div x b) xs = Inr (map (\<lambda>x. x / b) xs)"
  by (induction xs) (simp_all add: py_div_def)

lemma sum_sq_nonneg: "0 \<le> sum_sq v"
  unfolding sum_sq_def by (induction v) simp_all

lemma normalize_vec_closed: "normalize_vec vec = Inr (unit_vec vec)"
  using sum_sq_nonneg [of vec]
  by (simp add: normalize_vec_def math_sqrt_def unit_vec_def res_mapM_div sum_sq_def)

lemma vectors_loop_closed:
  assumes "vocab m = build_vocab U txts"
    and "idf m = (\<lambda>w. if w \<in> set (build_vocab U txts) then Some (idf_weight U txts w) else None)"
  shows "vectors_loop U m ts = Inr (map (\<lambda>t. unit_vec (raw_vec U txts t)) ts)"
proof (induction ts)
  case Nil
  then show ?case by simp
next
  case (Cons t ts)
  have "vec_loop (findall_words U (lower U t)) (idf m) (vocab m) = Inr (raw_vec U txts t)"
    unfolding raw_vec_def assms(1)
    by (rule vec_loop_closed) (simp add: assms(2))
  then show ?case using Cons by (simp add: normalize_vec_closed)
qed

lemma compute_vectors_closed:
  "res_bind (tfidf_init U txts) (compute_vectors U) = Inr (map (\<lambda>t. unit_vec (raw_vec U txts t)) txts)"
  by (simp add: tfidf_init_closed compute_vectors_def vectors_loop_closed)

subsection \<open>Vectors, dot products and the closed form of compare_all\<close>

lemma length_raw_vec [simp]: "length (raw_vec U txts t) = length (build_vocab U txts)"
  by (simp add: raw_vec_def)

lemma length_unit_vec [simp]: "length (unit_vec v) = length v"
  by (simp add: unit_vec_def)

lemma raw_vec_nonneg: "list_all (\<lambda>x. 0 \<le> x) (raw_vec U txts t)"
proof -
  have "0 \<le> tf_weight toks w * idf_weight U txts w" for toks w
    using tf_weight_nonneg [of toks w] idf_weight_ge_one [of U txts w] by simp
  then show ?thesis by (simp add: raw_vec_def list_all_iff)
qed

lemma unit_vec_nonneg: "list_all (\<lambda>x. 0 \<le> x) v \<Longrightarrow> list_all (\<lambda>x. 0 \<le> x) (unit_vec v)"
  by (auto simp: unit_vec_def list_all_iff sum_sq_nonneg intro!: divide_nonneg_nonneg)

lemma sum_sq_Nil [simp]: "sum_sq [] = 0"
  by (simp add: sum_sq_def)

lemma sum_sq_Cons [simp]: "sum_sq (x # xs) = x * x + sum_sq xs"
  by (simp add: sum_sq_def)

lemma compute_vectors_init:
  "tfidf_init U txts = Inr m \<Longrightarrow>
   compute_vectors U m = Inr (map (\<lambda>t. unit_vec (raw_vec U txts t)) txts)"
  using compute_vectors_closed [of U txts] by simp

lemma sum_sq_zero_iff: "sum_sq v = 0 \<longleftrightarrow> list_all (\<lambda>x. x = 0) v"
proof (induction v)
  case Nil
  then show ?case by (simp add: sum_sq_def)
next
  case (Cons x xs)
  have "0 \<le> sum_sq xs" by (rule sum_sq_nonneg)
  moreover have "0 \<le> x * x" by simp
  moreover have "sum_sq (x # xs) = x * x + sum_sq xs" by (simp add: sum_sq_def)
  ultimately have "sum_sq (x # xs) = 0 \<longleftrightarrow> x * x = 0 \<and> sum_sq xs = 0"
    by (simp add: add_nonneg_eq_0_iff)
  then show ?case using Cons by simp
qed

lemma sum_sq_scale: "sum_sq (map (\<lambda>x. x / c) v) = sum_sq v / (c * c)"
  unfolding sum_sq_def by (induction v) (simp_all add: add_divide_distrib)

lemma sum_sq_unit_vec: "sum_sq v \<noteq> 0 \<Longrightarrow> sum_sq (unit_vec v) = 1"
proof -
  assume nz: "sum_sq v \<noteq> 0"
  have "sqrt (sum_sq v) * sqrt (sum_sq v) = sum_sq v"
    using sum_sq_nonneg [of v] by simp
  then show ?thesis using nz by (simp add: unit_vec_def sum_sq_scale)
qed

lemma unit_vec_zero: "sum_sq v = 0 \<Longrightarrow> unit_vec v = v"
  by (simp add: unit_vec_def)

lemma sum_sq_unit_vec_le: "sum_sq (unit_vec v) \<le> 1"
  using sum_sq_unit_vec [of v] unit_vec_zero [of v] by (cases "sum_sq v = 0") simp_all

lemma dot_commute: "dot v1 v2 = dot v2 v1"
  unfolding dot_def
proof (induction v1 arbitrary: v2)
  case Nil
  then show ?case by simp
next
  case (Cons a v1)
  then show ?case by (cases v2) (simp_all add: mult.commute)
qed

lemma dot_self: "dot v v = sum_sq v"
  unfolding dot_def sum_sq_def by (induction v) simp_all

lemma dot_nonneg:
  "list_all (\<lambda>x. 0 \<le> x) v1 \<Longrightarrow> list_all (\<lambda>x. 0 \<le> x) v2 \<Longrightarrow> 0 \<le> dot v1 v2"
  unfolding dot_def
proof (induction v1 arbitrary: v2)
  case Nil
  then show ?case by simp
next
  case (Cons a v1)
  then show ?case by (cases v2) simp_all
qed

lemma two_dot_le: "2 * dot v1 v2 \<le> sum_sq v1 + sum_sq v2"
proof (induction v1 arbitrary: v2)
  case Nil
  then show ?case using sum_sq_nonneg [of v2] by (simp add: dot_def sum_sq_def)
next
  case (Cons a v1)
  show ?case
  proof (cases v2)
    case Nil
    then show ?thesis using sum_sq_nonneg [of "a # v1"] by (simp add: dot_def)
  next
    case (Cons b w)
    have "0 \<le> (a - b) * (a - b)" by simp
    then have "2 * (a * b) \<le> a * a + b * b" by (simp add: algebra_simps)
    moreover have "2 * dot v1 w \<le> sum_sq v1 + sum_sq w" by (rule Cons.IH)
    ultimately show ?thesis using Cons by (simp add: dot_def sum_sq_def)
  qed
qed

lemma dot_le_one: "sum_sq v1 \<le> 1 \<Longrightarrow> sum_sq v2 \<le> 1 \<Longrightarrow> dot v1 v2 \<le> 1"
  using two_dot_le [of v1 v2] by simp

lemma tfidf_compare_dot:
  "tfidf_compare v1 v2 = (if v1 \<noteq> [] \<and> v2 \<noteq> [] then py_round (dot v1 v2) 4 else 0)"
  by (simp add: tfidf_compare_def dot_def)

lemma tfidf_compare_commute: "tfidf_compare v1 v2 = tfidf_compare v2 v1"
  by (simp add: tfidf_compare_dot dot_commute conj_commute)

lemma tfidf_compare_unit_range:
  assumes "list_all (\<lambda>x. 0 \<le> x) u1" "list_all (\<lambda>x. 0 \<le> x) u2"
  shows "0 \<le> tfidf_compare (unit_vec u1) (unit_vec u2)
       \<and> tfidf_compare (unit_vec u1) (unit_vec u2) \<le> 1"
proof -
  have "0 \<le> dot (unit_vec u1) (unit_vec u2)"
    using assms by (simp add: dot_nonneg unit_vec_nonneg)
  moreover have "dot (unit_vec u1) (unit_vec u2) \<le> 1"
    by (simp add: dot_le_one sum_sq_unit_vec_le)
  ultimately show ?thesis
    by (simp add: tfidf_compare_dot py_round_nonneg py_round_le_one)
qed

lemma compare_all_closed:
  "\<exists>fp1 fp2 s j.
     compute_fingerprint U t1 = Inr fp1 \<and> compute_fingerprint U t2 = Inr fp2 \<and>
     compare fp1 fp2 epsilon_default = Inr s \<and> jaccard_compute U t1 t2 = Inr j \<and>
     compare_all U t1 t2 = Inr \<lparr>stylistic = s, jaccard = j,
       tfidf = tfidf_compare (unit_vec (raw_vec U [t1, t2] t1)) (unit_vec (raw_vec U [t1, t2] t2))\<rparr>"
proof -
  obtain fp1 where fp1: "compute_fingerprint U t1 = Inr fp1" "list_all (\<lambda>x. 0 \<le> x) fp1"
    using compute_fingerprint_ok [of U t1] by auto
  obtain fp2 where fp2: "compute_fingerprint U t2 = Inr fp2" "list_all (\<lambda>x. 0 \<le> x) fp2"
    using compute_fingerprint_ok [of U t2] by auto
  have "0 < epsilon_default" by (simp add: epsilon_default_def)
  from compare_nonneg_range [OF this fp1(2) fp2(2)]
  obtain s where s: "compare fp1 fp2 epsilon_default = Inr s" by auto
  obtain j where j: "jaccard_compute U t1 t2 = Inr j" using jaccard_range [of U t1 t2] by auto
  obtain m where m: "tfidf_init U [t1, t2] = Inr m" by (simp add: tfidf_init_closed)
  have "compare_all U t1 t2 = Inr \<lparr>stylistic = s, jaccard = j,
       tfidf = tfidf_compare (unit_vec (raw_vec U [t1, t2] t1)) (unit_vec (raw_vec U [t1, t2] t2))\<rparr>"
    by (simp add: compare_all_def fp1 fp2 s j m compute_vectors_init [OF m])
  then show ?thesis using fp1 fp2 s j by blast
qed

subsection \<open>Vocabulary facts and evaluation of compare_all\<close>

lemma set_build_vocab:
  "set (build_vocab U txts) = (\<Union>t\<in>set txts. set (findall_words U (lower U t)))"
  by (simp add: build_vocab_def)

lemma build_vocab_swap: "build_vocab U [a, b] = build_vocab U [b, a]"
  by (simp add: build_vocab_def Un_commute)

lemma idf_weight_swap: "idf_weight U [a, b] w = idf_weight U [b, a] w"
  by (simp add: idf_weight_def df_count_def)

lemma raw_vec_swap: "raw_vec U [a, b] t = raw_vec U [b, a] t"
  by (simp add: raw_vec_def build_vocab_swap [of U a b] idf_weight_swap [of U a b])

lemma raw_vec_present:
  assumes "findall_words U (lower U t) \<noteq> []" "t \<in> set txts"
  shows "sum_sq (raw_vec U txts t) \<noteq> 0"
proof -
  from assms(1) obtain w where w: "w \<in> set (findall_words U (lower U t))"
    by (cases "findall_words U (lower U t)") auto
  then have wv: "w \<in> set (build_vocab U txts)" using assms(2) by (auto simp: set_build_vocab)
  have "1 \<le> tf_weight (findall_words U (lower U t)) w" using w by (rule tf_weight_ge_one)
  moreover have "1 \<le> idf_weight U txts w" by (rule idf_weight_ge_one)
  ultimately have "0 < tf_weight (findall_words U (lower U t)) w * idf_weight U txts w" by simp
  then have "\<exists>x\<in>set (raw_vec U txts t). x \<noteq> 0" using wv by (force simp: raw_vec_def)
  then show ?thesis by (simp add: sum_sq_zero_iff list_all_iff)
qed

lemma raw_vec_absent:
  assumes "findall_words U (lower U t) = []"
  shows "list_all (\<lambda>x. x = 0) (raw_vec U txts t)"
  using assms by (simp add: raw_vec_def list_all_iff tf_weight_def)

lemma compare_all_eval:
  assumes "compute_fingerprint U t1 = Inr fp1" "compute_fingerprint U t2 = Inr fp2"
    and "compare fp1 fp2 epsilon_default = Inr s" "jaccard_compute U t1 t2 = Inr j"
  shows "compare_all U t1 t2 = Inr \<lparr>stylistic = s, jaccard = j,
       tfidf = tfidf_compare (unit_vec (raw_vec U [t1, t2] t1)) (unit_vec (raw_vec U [t1, t2] t2))\<rparr>"
  using compare_all_closed [of U t1 t2] assms by auto

lemma build_vocab_no_words:
  "findall_words U (lower U t1) = [] \<Longrightarrow> findall_words U (lower U t2) = [] \<Longrightarrow>
   build_vocab U [t1, t2] = []"
  by (simp add: build_vocab_def)

lemma tfidf_no_words:
  assumes "findall_words U (lower U t1) = []" "findall_words U (lower U t2) = []"
  shows "tfidf_compare (unit_vec (raw_vec U [t1, t2] t1)) (unit_vec (raw_vec U [t1, t2] t2)) = 0"
  by (simp add: raw_vec_def build_vocab_no_words [OF assms] unit_vec_def tfidf_compare_def)

subsection \<open>Guards\<close>

lemma dot_sum_nth:
  "dot v1 v2 = (\<Sum>k<min (length v1) (length v2). v1 ! k * v2 ! k)"
proof -
  have "dot v1 v2 = (\<Sum>k = 0..<length (zip v1 v2). map (\<lambda>(a, b). a * b) (zip v1 v2) ! k)"
    unfolding dot_def by (simp add: sum_list_sum_nth)
  also have "\<dots> = (\<Sum>k = 0..<length (zip v1 v2). v1 ! k * v2 ! k)"
    by (rule sum.cong) simp_all
  finally show ?thesis by (simp add: atLeast0LessThan)
qed

lemma fingerprint_no_words:
  "findall_words U (lower U t) = [] \<Longrightarrow>
   \<exists>a e. compute_fingerprint U t = Inr [a, 0, 0, 0, e]"
  by (simp add: compute_fingerprint_def Let_def py_div_def)

lemma fingerprint_no_sentences:
  "map (str_strip U) (filter (\<lambda>s. str_strip U s \<noteq> []) (re_split_terminal t)) = [] \<Longrightarrow>
   \<exists>b c d. compute_fingerprint U t = Inr [0, b, c, d, 0]"
  by (simp add: compute_fingerprint_def Let_def py_div_def)

lemma jaccard_no_words:
  "findall_words U (lower U t1) = [] \<Longrightarrow> findall_words U (lower U t2) = [] \<Longrightarrow>
   jaccard_compute U t1 t2 = Inr 0"
  by (simp add: jaccard_compute_def)

lemma normalize_vec_zero: "sum_list (map (\<lambda>x. x * x) v) = 0 \<Longrightarrow> normalize_vec v = Inr v"
  by (simp add: normalize_vec_def math_sqrt_def)

subsection \<open>Scenario B: bounds on ln (3/2) and the two vectors\<close>

lemma exp_ge_taylor6:
  "1 + x + x ^ 2 / 2 + x ^ 3 / 6 + x ^ 4 / 24 + x ^ 5 / 120 \<le> exp (x::real)"
proof -
  obtain t where t: "exp x = (\<Sum>m<6. (x ^ m) / fact m) + (exp t / fact 6) * x ^ 6"
    using Maclaurin_exp_le [of x 6] by blast
  have "0 \<le> x ^ 6" by (rule zero_le_even_power) simp
  then have "0 \<le> (exp t / fact 6) * x ^ 6" by simp
  then have "(\<Sum>m<6. (x ^ m) / fact m) \<le> exp x" using t by simp
  moreover have "(\<Sum>m<6. (x ^ m) / fact m)
      = 1 + x + x ^ 2 / 2 + x ^ 3 / 6 + x ^ 4 / 24 + x ^ 5 / 120"
    by (simp add: eval_nat_numeral lessThan_Suc fact_numeral)
  ultimately show ?thesis by simp
qed

lemma ln_three_halves_upper: "ln (3 / 2 :: real) < 4055 / 10000"
proof -
  have "(3 / 2 :: real) < 1 + (4055 / 10000) + (4055 / 10000) ^ 2 / 2 + (4055 / 10000) ^ 3 / 6
      + (4055 / 10000) ^ 4 / 24 + (4055 / 10000) ^ 5 / 120"
    by (simp add: power_divide)
  also have "\<dots> \<le> exp (4055 / 10000)" by (rule exp_ge_taylor6)
  finally have "exp (ln (3 / 2 :: real)) < exp (4055 / 10000)" by simp
  then show ?thesis by (simp only: exp_less_cancel_iff)
qed

lemma ln_three_halves_lower: "4054 / 10000 < ln (3 / 2 :: real)"
proof -
  have "(2 / 3 :: real) < 1 + (- (4054 / 10000)) + (- (4054 / 10000)) ^ 2 / 2
      + (- (4054 / 10000)) ^ 3 / 6 + (- (4054 / 10000)) ^ 4 / 24 + (- (4054 / 10000)) ^ 5 / 120"
    by (simp add: power_divide)
  also have "\<dots> \<le> exp (- (4054 / 10000))" by (rule exp_ge_taylor6)
  finally have "exp (- ln (3 / 2 :: real)) < exp (- (4054 / 10000))"
    by (simp add: exp_minus)
  then show ?thesis by (simp only: exp_less_cancel_iff neg_less_iff_less)
qed

lemma tfidf_scenario_bounds:
  fixes c :: real
  assumes "c = ln (3 / 2) + 1"
  shows "py_round (1 / (c * c + 1)) 4 = 3361 / 10000"
proof -
  have lo: "14054 / 10000 < c" using ln_three_halves_lower assms by simp
  have hi: "c < 14055 / 10000" using ln_three_halves_upper assms by simp
  have pos: "0 < c" using lo by simp
  have "c * c < (14055 / 10000) * (14055 / 10000)"
    using hi pos by (intro mult_strict_mono) simp_all
  then have up: "c * c + 1 < 29755 / 10000" by simp
  have "(14054 / 10000) * (14054 / 10000) < c * c"
    using lo by (intro mult_strict_mono) simp_all
  then have dn: "29751 / 10000 < c * c + 1" by simp
  have p: "0 < c * c + 1" using dn by simp
  have a: "of_int 3361 - 1 / 2 < 1 / (c * c + 1) * 10 ^ 4"
    using up p by (simp add: less_divide_eq)
  have b: "1 / (c * c + 1) * 10 ^ 4 < of_int 3361 + 1 / 2"
    using dn p by (simp add: divide_less_eq)
  have "round_half_even (1 / (c * c + 1) * 10 ^ 4) = 3361"
    using a b by (rule round_half_even_eqI)
  then show ?thesis by (simp add: py_round_def)
qed

lemma unit_vec_Nil_iff: "unit_vec v = [] \<longleftrightarrow> v = []"
  by (simp add: unit_vec_def)

lemma unit_dot_scenario:
  fixes c :: real
  shows "dot (unit_vec [c, 0, 1]) (unit_vec [0, c, 1]) = 1 / (c * c + 1)"
proof -
  have p: "0 < c * c + 1" by (rule add_nonneg_pos) simp_all
  then have nz: "sqrt (c * c + 1) \<noteq> 0" by simp
  have sq: "sqrt (c * c + 1) * sqrt (c * c + 1) = c * c + 1" using p by simp
  have u1: "unit_vec [c, 0, 1] = [c / sqrt (c * c + 1), 0, 1 / sqrt (c * c + 1)]"
    using nz by (simp add: unit_vec_def)
  have u2: "unit_vec [0, c, 1] = [0, c / sqrt (c * c + 1), 1 / sqrt (c * c + 1)]"
    using nz by (simp add: unit_vec_def)
  show ?thesis unfolding u1 u2 by (simp add: dot_def sq)
qed

subsection \<open>Texts of ASCII characters depend on the ASCII part of the tables only\<close>

lemma runs_acc_cong:
  "(\<And>c. c \<in> set s \<Longrightarrow> P c = Q c) \<Longrightarrow> runs_acc P cur s = runs_acc Q cur s"
  by (induction s arbitrary: cur) simp_all

lemma lower_from_ascii:
  "agrees_on_ascii U \<Longrightarrow> ascii_text s \<Longrightarrow> lower_from U pre s = lower_from ascii_db pre s"
  by (induction s arbitrary: pre) (simp_all add: agrees_on_ascii_def ascii_text_def)

lemma ascii_lower_from: "ascii_text s \<Longrightarrow> ascii_text (lower_from ascii_db pre s)"
  by (induction s arbitrary: pre) (simp_all add: ascii_text_def ascii_db_def)

lemma tokens_ascii:
  assumes "agrees_on_ascii U" "ascii_text t"
  shows "findall_words U (lower U t) = findall_words ascii_db (lower ascii_db t)"
proof -
  have l: "lower U t = lower ascii_db t"
    using assms by (simp add: lower_def lower_from_ascii)
  have "ascii_text (lower ascii_db t)"
    using assms(2) by (simp add: lower_def ascii_lower_from)
  then have "\<And>c. c \<in> set (lower ascii_db t) \<Longrightarrow> is_word U c = is_word ascii_db c"
    using assms(1) by (simp add: ascii_text_def list_all_iff agrees_on_ascii_def)
  then show ?thesis unfolding findall_words_def l by (rule runs_acc_cong)
qed

lemma str_split_ascii:
  assumes "agrees_on_ascii U" "ascii_text s"
  shows "str_split U s = str_split ascii_db s"
proof -
  have "\<And>c. c \<in> set s \<Longrightarrow> (\<not> is_space U c) = (\<not> is_space ascii_db c)"
    using assms by (simp add: ascii_text_def list_all_iff agrees_on_ascii_def)
  then show ?thesis unfolding str_split_def by (rule runs_acc_cong)
qed

lemma str_strip_ascii:
  assumes "agrees_on_ascii U" "ascii_text s"
  shows "str_strip U s = str_strip ascii_db s"
proof -
  have sp: "\<And>c. c \<in> set s \<Longrightarrow> is_space U c = is_space ascii_db c"
    using assms by (simp add: ascii_text_def list_all_iff agrees_on_ascii_def)
  then have d: "dropWhile (is_space U) s = dropWhile (is_space ascii_db) s"
    by (intro dropWhile_cong) simp_all
  have "\<And>c. c \<in> set (rev (dropWhile (is_space ascii_db) s))
      \<Longrightarrow> is_space U c = is_space ascii_db c"
    using sp by (auto dest: set_dropWhileD)
  then have "dropWhile (is_space U) (rev (dropWhile (is_space ascii_db) s))
      = dropWhile (is_space ascii_db) (rev (dropWhile (is_space ascii_db) s))"
    by (intro dropWhile_cong) simp_all
  then show ?thesis by (simp add: str_strip_def d)
qed

lemma ascii_str_strip: "ascii_text s \<Longrightarrow> ascii_text (str_strip U s)"
proof -
  have "set (str_strip U s) \<subseteq> set s"
  proof
    fix c
    assume "c \<in> set (str_strip U s)"
    then have "c \<in> set (dropWhile (is_space U) (rev (dropWhile (is_space U) s)))"
      by (simp add: str_strip_def)
    then have "c \<in> set (rev (dropWhile (is_space U) s))" by (rule set_dropWhileD)
    then have "c \<in> set (dropWhile (is_space U) s)" by simp
    then show "c \<in> set s" by (rule set_dropWhileD)
  qed
  then show "ascii_text s \<Longrightarrow> ascii_text (str_strip U s)"
    by (auto simp: ascii_text_def list_all_iff)
qed

lemma ascii_split_acc:
  "ascii_text cur \<Longrightarrow> ascii_text s \<Longrightarrow> list_all ascii_text (split_acc cur s)"
  by (induction s arbitrary: cur) (simp_all add: ascii_text_def)

lemma compute_fingerprint_ascii:
  assumes "agrees_on_ascii U" "ascii_text t"
  shows "compute_fingerprint U t = compute_fingerprint ascii_db t"
proof -
  let ?P = "re_split_terminal t"
  let ?S = "map (str_strip ascii_db) (filter (\<lambda>s. str_strip ascii_db s \<noteq> []) ?P)"
  have pieces: "list_all ascii_text ?P"
    using assms(2) by (simp add: re_split_terminal_def ascii_split_acc ascii_text_def)
  then have st: "\<And>s. s \<in> set ?P \<Longrightarrow> str_strip U s = str_strip ascii_db s"
    using assms(1) by (simp add: list_all_iff str_strip_ascii)
  have f: "filter (\<lambda>s. str_strip U s \<noteq> []) ?P = filter (\<lambda>s. str_strip ascii_db s \<noteq> []) ?P"
    by (rule filter_cong) (simp_all add: st)
  have sent: "map (str_strip U) (filter (\<lambda>s. str_strip U s \<noteq> []) ?P) = ?S"
    unfolding f by (rule map_cong) (simp_all add: st)
  have sa: "\<And>s. s \<in> set ?S \<Longrightarrow> ascii_text s"
    using pieces by (auto simp: list_all_iff ascii_str_strip)
  have m1: "map (\<lambda>s. length (str_split U s)) ?S = map (\<lambda>s. length (str_split ascii_db s)) ?S"
    by (rule map_cong) (simp_all add: sa str_split_ascii [OF assms(1)])
  have f1: "filter (\<lambda>s. length (str_split U s) < 5) ?S
      = filter (\<lambda>s. length (str_split ascii_db s) < 5) ?S"
    by (rule filter_cong) (simp_all add: sa str_split_ascii [OF assms(1)])
  show ?thesis
    unfolding compute_fingerprint_def Let_def sent m1 f1 tokens_ascii [OF assms]
    by (rule refl)
qed

lemma jaccard_compute_ascii:
  "agrees_on_ascii U \<Longrightarrow> ascii_text a \<Longrightarrow> ascii_text b \<Longrightarrow>
   jaccard_compute U a b = jaccard_compute ascii_db a b"
  by (simp add: jaccard_compute_def tokens_ascii)

lemma build_vocab_ascii:
  assumes "agrees_on_ascii U" "list_all ascii_text txts"
  shows "build_vocab U txts = build_vocab ascii_db txts"
proof -
  have "map (\<lambda>t. findall_words U (lower U t)) txts
      = map (\<lambda>t. findall_words ascii_db (lower ascii_db t)) txts"
    using assms by (intro map_cong) (simp_all add: list_all_iff tokens_ascii)
  then show ?thesis by (simp add: build_vocab_def)
qed

lemma idf_weight_ascii:
  assumes "agrees_on_ascii U" "list_all ascii_text txts"
  shows "idf_weight U txts w = idf_weight ascii_db txts w"
proof -
  have "filter (\<lambda>t. w \<in> set (findall_words U (lower U t))) txts
      = filter (\<lambda>t. w \<in> set (findall_words ascii_db (lower ascii_db t))) txts"
    using assms by (intro filter_cong) (simp_all add: list_all_iff tokens_ascii)
  then show ?thesis by (simp add: idf_weight_def df_count_def)
qed

lemma raw_vec_ascii:
  assumes "agrees_on_ascii U" "list_all ascii_text txts" "ascii_text t"
  shows "raw_vec U txts t = raw_vec ascii_db txts t"
  unfolding raw_vec_def build_vocab_ascii [OF assms(1,2)] tokens_ascii [OF assms(1,3)]
    idf_weight_ascii [OF assms(1,2)]
  by (rule refl)

lemma tfidf_init_ascii:
  assumes "agrees_on_ascii U" "list_all ascii_text txts"
  shows "tfidf_init U txts = tfidf_init ascii_db txts"
  unfolding tfidf_init_closed build_vocab_ascii [OF assms] idf_weight_ascii [OF assms]
  by (rule refl)

lemma compare_all_ascii:
  assumes "agrees_on_ascii U" "ascii_text a" "ascii_text b"
  shows "compare_all U a b = compare_all ascii_db a b"
proof -
  obtain fa fb s j where fa: "compute_fingerprint ascii_db a = Inr fa"
    and fb: "compute_fingerprint ascii_db b = Inr fb"
    and s: "compare fa fb epsilon_default = Inr s"
    and j: "jaccard_compute ascii_db a b = Inr j"
    and r: "compare_all ascii_db a b = Inr \<lparr>stylistic = s, jaccard = j,
       tfidf = tfidf_compare (unit_vec (raw_vec ascii_db [a, b] a))
                 (unit_vec (raw_vec ascii_db [a, b] b))\<rparr>"
    using compare_all_closed [of ascii_db a b] by auto
  have fa': "compute_fingerprint U a = Inr fa"
    using fa compute_fingerprint_ascii [OF assms(1,2)] by simp
  have fb': "compute_fingerprint U b = Inr fb"
    using fb compute_fingerprint_ascii [OF assms(1,3)] by simp
  have j': "jaccard_compute U a b = Inr j"
    using j jaccard_compute_ascii [OF assms] by simp
  have l: "list_all ascii_text [a, b]" using assms(2,3) by simp
  have "raw_vec U [a, b] a = raw_vec ascii_db [a, b] a"
    "raw_vec U [a, b] b = raw_vec ascii_db [a, b] b"
    using assms l by (simp_all add: raw_vec_ascii)
  then show ?thesis using compare_all_eval [OF fa' fb' s j'] r by simp
qed

lemma agrees_ascii_db: "agrees_on_ascii ascii_db"
  by (simp add: agrees_on_ascii_def)

subsection \<open>Evaluation at the ASCII table\<close>

lemma ascii_literals:
  "ascii_text (str ''Cats run.'')" "ascii_text (str ''Dogs run.'')" "ascii_text (str ''!'')"
  by code_simp+

lemma scenario_b_tokens:
  "findall_words ascii_db (lower ascii_db (str ''Cats run.'')) = [str ''cats'', str ''run'']"
  "findall_words ascii_db (lower ascii_db (str ''Dogs run.'')) = [str ''dogs'', str ''run'']"
  "build_vocab ascii_db [str ''Cats run.'', str ''Dogs run.'']
     = [str ''cats'', str ''dogs'', str ''run'']"
  by code_simp+

lemma scenario_b_counts:
  "count_list [str ''cats'', str ''run''] (str ''cats'') = 1"
  "count_list [str ''cats'', str ''run''] (str ''dogs'') = 0"
  "count_list [str ''cats'', str ''run''] (str ''run'') = 1"
  "count_list [str ''dogs'', str ''run''] (str ''cats'') = 0"
  "count_list [str ''dogs'', str ''run''] (str ''dogs'') = 1"
  "count_list [str ''dogs'', str ''run''] (str ''run'') = 1"
  by code_simp+

lemma scenario_b_idf:
  "idf_weight ascii_db [str ''Cats run.'', str ''Dogs run.''] (str ''cats'') = ln (3 / 2) + 1"
  "idf_weight ascii_db [str ''Cats run.'', str ''Dogs run.''] (str ''dogs'') = ln (3 / 2) + 1"
  "idf_weight ascii_db [str ''Cats run.'', str ''Dogs run.''] (str ''run'') = 1"
proof -
  have "df_count ascii_db [str ''Cats run.'', str ''Dogs run.''] (str ''cats'') = 1"
    "df_count ascii_db [str ''Cats run.'', str ''Dogs run.''] (str ''dogs'') = 1"
    "df_count ascii_db [str ''Cats run.'', str ''Dogs run.''] (str ''run'') = 2"
    by code_simp+
  then show
    "idf_weight ascii_db [str ''Cats run.'', str ''Dogs run.''] (str ''cats'') = ln (3 / 2) + 1"
    "idf_weight ascii_db [str ''Cats run.'', str ''Dogs run.''] (str ''dogs'') = ln (3 / 2) + 1"
    "idf_weight ascii_db [str ''Cats run.'', str ''Dogs run.''] (str ''run'') = 1"
    by (simp_all add: idf_weight_def)
qed

lemma scenario_b_tf:
  "tf_weight [str ''cats'', str ''run''] (str ''cats'') = 1"
  "tf_weight [str ''cats'', str ''run''] (str ''dogs'') = 0"
  "tf_weight [str ''cats'', str ''run''] (str ''run'') = 1"
  "tf_weight [str ''dogs'', str ''run''] (str ''cats'') = 0"
  "tf_weight [str ''dogs'', str ''run''] (str ''dogs'') = 1"
  "tf_weight [str ''dogs'', str ''run''] (str ''run'') = 1"
  unfolding tf_weight_def scenario_b_counts by simp_all

lemma scenario_b_raw:
  "raw_vec ascii_db [str ''Cats run.'', str ''Dogs run.''] (str ''Cats run.'')
     = [ln (3 / 2) + 1, 0, 1]"
  "raw_vec ascii_db [str ''Cats run.'', str ''Dogs run.''] (str ''Dogs run.'')
     = [0, ln (3 / 2) + 1, 1]"
  by (simp_all add: raw_vec_def scenario_b_tokens scenario_b_idf scenario_b_tf)

lemma scenario_b_fingerprints:
  "compute_fingerprint ascii_db (str ''Cats run.'') = Inr [2, 7 / 2, 1 / 2, 1, 1]"
  "compute_fingerprint ascii_db (str ''Dogs run.'') = Inr [2, 7 / 2, 1 / 2, 1, 1]"
  by code_simp+

lemma scenario_b_eval:
  "compare_all ascii_db (str ''Cats run.'') (str ''Dogs run.'')
     = Inr \<lparr>stylistic = 1, jaccard = 3333 / 10000, tfidf = 3361 / 10000\<rparr>"
proof -
  have s: "compare [2, 7 / 2, 1 / 2, 1, 1] [2, 7 / 2, 1 / 2, 1, 1] epsilon_default = Inr 1"
    by code_simp
  have j: "jaccard_compute ascii_db (str ''Cats run.'') (str ''Dogs run.'')
      = Inr (3333 / 10000)"
    by code_simp
  have "tfidf_compare (unit_vec [ln (3 / 2) + 1, 0, 1]) (unit_vec [0, ln (3 / 2) + 1, 1])
      = 3361 / 10000"
    using tfidf_scenario_bounds [OF refl]
    by (simp add: tfidf_compare_dot unit_dot_scenario unit_vec_Nil_iff)
  then show ?thesis
    using compare_all_eval [OF scenario_b_fingerprints s j] by (simp add: scenario_b_raw)
qed

lemma scenario_b_model:
  "\<exists>m. tfidf_init ascii_db [str ''Cats run.'', str ''Dogs run.''] = Inr m
      \<and> vocab m = [str ''cats'', str ''dogs'', str ''run'']
      \<and> idf m (str ''cats'') = Some (ln (3 / 2) + 1)
      \<and> idf m (str ''dogs'') = Some (ln (3 / 2) + 1)
      \<and> idf m (str ''run'') = Some 1"
  by (simp add: tfidf_init_closed scenario_b_tokens scenario_b_idf)

lemma no_token_eval:
  "compare_all ascii_db (str ''!'') (str ''!'') = Inr \<lparr>stylistic = 1, jaccard = 0, tfidf = 0\<rparr>"
proof -
  have w: "findall_words ascii_db (lower ascii_db (str ''!'')) = []" by code_simp
  have fp: "compute_fingerprint ascii_db (str ''!'') = Inr [0, 0, 0, 0, 0]" by code_simp
  have s: "compare [0, 0, 0, 0, 0] [0, 0, 0, 0, 0] epsilon_default = Inr 1" by code_simp
  have j: "jaccard_compute ascii_db (str ''!'') (str ''!'') = Inr 0" by code_simp
  show ?thesis using compare_all_eval [OF fp fp s j] tfidf_no_words [OF w w] by simp
qed

text \<open>The two evaluations hold for every table that is the ASCII one below code point
  128, Python's included.\<close>

lemma scenario_b_any_table:
  "agrees_on_ascii U \<Longrightarrow>
   compare_all U (str ''Cats run.'') (str ''Dogs run.'')
     = Inr \<lparr>stylistic = 1, jaccard = 3333 / 10000, tfidf = 3361 / 10000\<rparr>"
  by (simp add: compare_all_ascii ascii_literals scenario_b_eval)

lemma no_token_any_table:
  "agrees_on_ascii U \<Longrightarrow>
   compare_all U (str ''!'') (str ''!'') = Inr \<lparr>stylistic = 1, jaccard = 0, tfidf = 0\<rparr>"
  by (simp add: compare_all_ascii ascii_literals no_token_eval)

subsection \<open>The vectors in exact arithmetic\<close>

text \<open>
  With exact real arithmetic every vector of \<^verbatim>\<open>compute_vectors\<close> has one component per
  vocabulary term; the norm before normalisation is \<open>0\<close> exactly for a text without
  word tokens, and then the vector is returned unchanged and is the zero vector; otherwise
  the returned vector has norm \<open>1\<close>. The last part is a fact of exact arithmetic only:
  the components of the code's vectors are binary fractions.
\<close>

lemma vectors_exact_arithmetic:
  "\<exists>m vs. tfidf_init U txts = Inr m \<and> compute_vectors U m = Inr vs \<and> length vs = length txts \<and>
     (\<forall>k<length txts. \<exists>vec.
        vec_loop (findall_words U (lower U (txts ! k))) (idf m) (vocab m) = Inr vec
        \<and> length (vs ! k) = length (vocab m)
        \<and> (sqrt (sum_list (map (\<lambda>x. x * x) vec)) = 0
             \<longleftrightarrow> findall_words U (lower U (txts ! k)) = [])
        \<and> (if sqrt (sum_list (map (\<lambda>x. x * x) vec)) = 0
           then vs ! k = vec \<and> list_all (\<lambda>x. x = 0) (vs ! k)
           else sqrt (sum_list (map (\<lambda>x. x * x) (vs ! k))) = 1))"
proof -
  let ?i = "\<lambda>w. if w \<in> set (build_vocab U txts) then Some (idf_weight U txts w) else None"
  let ?m = "\<lparr>texts = txts, vocab = build_vocab U txts, idf = ?i\<rparr>"
  let ?vs = "map (\<lambda>t. unit_vec (raw_vec U txts t)) txts"
  have init: "tfidf_init U txts = Inr ?m" by (rule tfidf_init_closed)
  have cv: "compute_vectors U ?m = Inr ?vs" by (rule compute_vectors_init [OF init])
  have "\<exists>vec.
        vec_loop (findall_words U (lower U (txts ! k))) (idf ?m) (vocab ?m) = Inr vec
        \<and> length (?vs ! k) = length (vocab ?m)
        \<and> (sqrt (sum_list (map (\<lambda>x. x * x) vec)) = 0
             \<longleftrightarrow> findall_words U (lower U (txts ! k)) = [])
        \<and> (if sqrt (sum_list (map (\<lambda>x. x * x) vec)) = 0
           then ?vs ! k = vec \<and> list_all (\<lambda>x. x = 0) (?vs ! k)
           else sqrt (sum_list (map (\<lambda>x. x * x) (?vs ! k))) = 1)" if k: "k < length txts" for k
  proof -
    let ?t = "txts ! k"
    let ?raw = "raw_vec U txts ?t"
    have mem: "?t \<in> set txts" using k by simp
    have vl: "vec_loop (findall_words U (lower U ?t)) (idf ?m) (vocab ?m) = Inr ?raw"
      unfolding raw_vec_def by (simp only: tfidf_model.simps) (rule vec_loop_closed, simp)
    have nth: "?vs ! k = unit_vec ?raw" using k by simp
    have zero_iff: "sqrt (sum_sq ?raw) = 0 \<longleftrightarrow> findall_words U (lower U ?t) = []"
    proof
      assume "sqrt (sum_sq ?raw) = 0"
      then have "sum_sq ?raw = 0" by simp
      then show "findall_words U (lower U ?t) = []" using raw_vec_present [OF _ mem] by blast
    next
      assume "findall_words U (lower U ?t) = []"
      then have "list_all (\<lambda>x. x = 0) ?raw" by (rule raw_vec_absent)
      then show "sqrt (sum_sq ?raw) = 0" by (simp add: sum_sq_zero_iff)
    qed
    have z: "unit_vec ?raw = ?raw \<and> list_all (\<lambda>x. x = 0) (unit_vec ?raw)"
      if "sqrt (sum_sq ?raw) = 0"
    proof -
      from that have s0: "sum_sq ?raw = 0" by simp
      then have "unit_vec ?raw = ?raw" by (rule unit_vec_zero)
      moreover have "list_all (\<lambda>x. x = 0) ?raw" using s0 by (simp add: sum_sq_zero_iff)
      ultimately show ?thesis by simp
    qed
    have n: "sqrt (sum_sq (unit_vec ?raw)) = 1" if "sqrt (sum_sq ?raw) \<noteq> 0"
    proof -
      from that have "sum_sq ?raw \<noteq> 0" by simp
      then show ?thesis by (simp add: sum_sq_unit_vec)
    qed
    have len: "length (?vs ! k) = length (vocab ?m)" using nth by simp
    have cond: "if sqrt (sum_sq ?raw) = 0
           then ?vs ! k = ?raw \<and> list_all (\<lambda>x. x = 0) (?vs ! k)
           else sqrt (sum_sq (?vs ! k)) = 1"
      using z n nth by auto
    show ?thesis
      using vl len zero_iff cond unfolding sum_sq_def
      by (intro exI [of _ ?raw] conjI)
  qed
  then have all: "\<forall>k<length txts. \<exists>vec.
        vec_loop (findall_words U (lower U (txts ! k))) (idf ?m) (vocab ?m) = Inr vec
        \<and> length (?vs ! k) = length (vocab ?m)
        \<and> (sqrt (sum_list (map (\<lambda>x. x * x) vec)) = 0
             \<longleftrightarrow> findall_words U (lower U (txts ! k)) = [])
        \<and> (if sqrt (sum_list (map (\<lambda>x. x * x) vec)) = 0
           then ?vs ! k = vec \<and> list_all (\<lambda>x. x = 0) (?vs ! k)
           else sqrt (sum_list (map (\<lambda>x. x * x) (?vs ! k))) = 1)"
    by blast
  have lvs: "length ?vs = length txts" by simp
  show ?thesis
    by (rule exI [of _ ?m], rule exI [of _ ?vs]) (intro conjI init cv lvs all)
qed

section \<open>The claims\<close>

text \<open>
  C9. \<^verbatim>\<open>StylisticFingerprint.compare\<close> on two empty vectors returns \<open>0.0\<close>, not
  \<open>1.0\<close>: with no positional difference the score is the \<open>0.0\<close> of the
  empty-\<^verbatim>\<open>diffs\<close> branch. The case cannot arise from \<^verbatim>\<open>compare_all\<close>: every
  fingerprint computed from a text has exactly five components.
\<close>

theorem compare_empty_vectors:
  "compare [] [] eps = Inr 0 \<and> compare [] [] eps \<noteq> Inr 1
   \<and> (\<forall>U t. \<exists>fp. compute_fingerprint U t = Inr fp \<and> length fp = 5)"
  by (simp add: compare_def compute_fingerprint_def Let_def py_div_def)

text \<open>
  C1 (as amended). Identity: for every text \<open>t\<close>, \<^verbatim>\<open>compare_all\<close> on the pair
  \<open>(t, t)\<close> returns \<open>stylistic = 1.0\<close>; it returns \<open>jaccard = 1.0\<close> and
  \<open>tfidf = 1.0\<close> when \<open>t\<close> has at least one word token, and \<open>jaccard = 0.0\<close> and
  \<open>tfidf = 0.0\<close> when it has none.
\<close>

theorem compare_all_identity:
  "\<exists>r. compare_all U t t = Inr r \<and> stylistic r = 1
     \<and> (if findall_words U (lower U t) = [] then jaccard r = 0 \<and> tfidf r = 0
        else jaccard r = 1 \<and> tfidf r = 1)"
proof -
  obtain fp s j where fp: "compute_fingerprint U t = Inr fp"
    and s: "compare fp fp epsilon_default = Inr s"
    and j: "jaccard_compute U t t = Inr j"
    and r: "compare_all U t t = Inr \<lparr>stylistic = s, jaccard = j,
       tfidf = tfidf_compare (unit_vec (raw_vec U [t, t] t)) (unit_vec (raw_vec U [t, t] t))\<rparr>"
    using compare_all_closed [of U t t] by auto
  have "length fp = 5" "list_all (\<lambda>x. 0 \<le> x) fp"
    using compute_fingerprint_ok [of U t] fp by auto
  then have "compare fp fp epsilon_default = Inr 1"
    by (intro compare_same) (auto simp: epsilon_default_def)
  then have s1: "s = 1" using s by simp
  show ?thesis
  proof (cases "findall_words U (lower U t) = []")
    case True
    have "j = 0" using jaccard_no_words [OF True True] j by simp
    moreover have "tfidf_compare (unit_vec (raw_vec U [t, t] t)) (unit_vec (raw_vec U [t, t] t)) = 0"
      by (rule tfidf_no_words [OF True True])
    ultimately show ?thesis using r s1 True by simp
  next
    case False
    have j1: "j = 1" using jaccard_same [OF False] j by simp
    have nz: "sum_sq (raw_vec U [t, t] t) \<noteq> 0" using False by (intro raw_vec_present) simp_all
    then have ne: "raw_vec U [t, t] t \<noteq> []" by auto
    have "dot (unit_vec (raw_vec U [t, t] t)) (unit_vec (raw_vec U [t, t] t)) = 1"
      using nz by (simp add: dot_self sum_sq_unit_vec)
    then have "tfidf_compare (unit_vec (raw_vec U [t, t] t)) (unit_vec (raw_vec U [t, t] t)) = 1"
      using ne by (simp add: tfidf_compare_dot unit_vec_Nil_iff)
    then show ?thesis using r s1 j1 False by simp
  qed
qed

text \<open>Scenario A of the specification is an instance, and so is the one-letter text of
  code point 233 (e with acute accent) with a table in which 233 is a word character.\<close>

theorem compare_all_identity_witness:
  "compare_all ascii_db (str ''The cat sat on the mat.'') (str ''The cat sat on the mat.'')
     = Inr \<lparr>stylistic = 1, jaccard = 1, tfidf = 1\<rparr>
   \<and> compare_all (ascii_db\<lparr>is_word := (\<lambda>c. is_word ascii_db c \<or> c = 233)\<rparr>) [233] [233]
     = Inr \<lparr>stylistic = 1, jaccard = 1, tfidf = 1\<rparr>"
proof -
  let ?U = "ascii_db\<lparr>is_word := (\<lambda>c. is_word ascii_db c \<or> c = 233)\<rparr>"
  have h: "findall_words ascii_db (lower ascii_db (str ''The cat sat on the mat.'')) \<noteq> []"
    by code_simp
  have k: "findall_words ?U (lower ?U [233]) \<noteq> []"
    by code_simp
  show ?thesis
    using h k compare_all_identity [of ascii_db "str ''The cat sat on the mat.''"]
      compare_all_identity [of ?U "[233]"]
    by auto
qed

text \<open>
  The claim as first stated, for every non-empty text, fails on a non-empty text without
  a word token: the guards for the empty word union and the empty vocabulary return
  \<open>0.0\<close> for the Jaccard and the TF-IDF score.
\<close>

theorem compare_all_identity_counterexample:
  "str ''!'' \<noteq> []
   \<and> compare_all ascii_db (str ''!'') (str ''!'')
       = Inr \<lparr>stylistic = 1, jaccard = 0, tfidf = 0\<rparr>"
proof -
  have "str ''!'' \<noteq> []" by (simp add: str_def)
  then show ?thesis using no_token_eval by simp
qed

text \<open>
  C4. Symmetry: for all texts \<open>a\<close> and \<open>b\<close>, \<^verbatim>\<open>compare_all(a, b)\<close> and
  \<^verbatim>\<open>compare_all(b, a)\<close> return the same stylistic, Jaccard and TF-IDF score.
\<close>

theorem compare_all_symmetric: "compare_all U a b = compare_all U b a"
proof -
  obtain fa fb s j where a: "compute_fingerprint U a = Inr fa"
    and b: "compute_fingerprint U b = Inr fb"
    and s: "compare fa fb epsilon_default = Inr s" and j: "jaccard_compute U a b = Inr j"
    and r: "compare_all U a b = Inr \<lparr>stylistic = s, jaccard = j,
       tfidf = tfidf_compare (unit_vec (raw_vec U [a, b] a)) (unit_vec (raw_vec U [a, b] b))\<rparr>"
    using compare_all_closed [of U a b] by auto
  obtain s' j' where s': "compare fb fa epsilon_default = Inr s'"
    and j': "jaccard_compute U b a = Inr j'"
    and r': "compare_all U b a = Inr \<lparr>stylistic = s', jaccard = j',
       tfidf = tfidf_compare (unit_vec (raw_vec U [b, a] b)) (unit_vec (raw_vec U [b, a] a))\<rparr>"
    using compare_all_closed [of U b a] a b by auto
  have "s' = s" using s s' compare_commute [of fa fb] by simp
  moreover have "j' = j" using j j' jaccard_commute [of U a b] by simp
  moreover have "tfidf_compare (unit_vec (raw_vec U [b, a] b)) (unit_vec (raw_vec U [b, a] a))
      = tfidf_compare (unit_vec (raw_vec U [a, b] a)) (unit_vec (raw_vec U [a, b] b))"
    by (simp add: raw_vec_swap [of U b a] tfidf_compare_commute)
  ultimately show ?thesis using r r' by simp
qed

text \<open>
  C5. On two empty strings \<^verbatim>\<open>compare_all\<close> returns \<open>stylistic = 1.0\<close>,
  \<open>jaccard = 0.0\<close> and \<open>tfidf = 0.0\<close>: both fingerprints are all zero, every
  positional difference is the \<open>0.0\<close> of the both-zero branch, and the vocabulary is
  empty.
\<close>

theorem compare_all_double_empty:
  "compute_fingerprint U [] = Inr [0, 0, 0, 0, 0]
   \<and> diffs_loop (zip [0, 0, 0, 0, 0] [0, 0, 0, 0, 0]) epsilon_default = Inr [0, 0, 0, 0, 0]
   \<and> build_vocab U [[], []] = []
   \<and> compare_all U [] [] = Inr \<lparr>stylistic = 1, jaccard = 0, tfidf = 0\<rparr>"
proof -
  have d: "diffs_loop (zip [0, 0, 0, 0, 0] [0, 0, 0, 0, 0]) epsilon_default = Inr [0, 0, 0, 0, 0]"
    by simp
  have w: "findall_words U (lower U []) = []" by (simp add: findall_words_def lower_def)
  have v: "build_vocab U [[], []] = []" by (rule build_vocab_no_words [OF w w])
  have fp: "compute_fingerprint U [] = Inr [0, 0, 0, 0, 0]"
    by (simp add: compute_fingerprint_def Let_def w re_split_terminal_def str_strip_def)
  have s: "compare [0, 0, 0, 0, 0] [0, 0, 0, 0, 0] epsilon_default = Inr 1" by code_simp
  have j: "jaccard_compute U [] [] = Inr 0" by (rule jaccard_no_words [OF w w])
  show ?thesis using compare_all_eval [OF fp fp s j] tfidf_no_words [OF w w] fp d v by simp
qed

text \<open>
  C3 (as amended). Range bounds: for every pair of texts \<^verbatim>\<open>compare_all\<close> returns
  scores with \<open>jaccard\<close> and \<open>tfidf\<close> in \<open>[0, 1]\<close>; and for every pair of
  five-component fingerprint vectors with non-negative components
  \<^verbatim>\<open>StylisticFingerprint.compare\<close> returns a value in \<open>[0, 1]\<close>.
\<close>

theorem score_ranges:
  "(\<exists>r. compare_all U t1 t2 = Inr r \<and> 0 \<le> jaccard r \<and> jaccard r \<le> 1
        \<and> 0 \<le> tfidf r \<and> tfidf r \<le> 1)
   \<and> (length fp1 = 5 \<and> length fp2 = 5
        \<and> list_all (\<lambda>x. 0 \<le> x) fp1 \<and> list_all (\<lambda>x. 0 \<le> x) fp2
      \<longrightarrow> (\<exists>s. compare fp1 fp2 epsilon_default = Inr s \<and> 0 \<le> s \<and> s \<le> 1))"
proof (intro conjI impI)
  obtain s j where j: "jaccard_compute U t1 t2 = Inr j"
    and r: "compare_all U t1 t2 = Inr \<lparr>stylistic = s, jaccard = j,
       tfidf = tfidf_compare (unit_vec (raw_vec U [t1, t2] t1))
                 (unit_vec (raw_vec U [t1, t2] t2))\<rparr>"
    using compare_all_closed [of U t1 t2] by auto
  have "0 \<le> j \<and> j \<le> 1" using jaccard_range [of U t1 t2] j by simp
  moreover have
    "0 \<le> tfidf_compare (unit_vec (raw_vec U [t1, t2] t1)) (unit_vec (raw_vec U [t1, t2] t2))
      \<and> tfidf_compare (unit_vec (raw_vec U [t1, t2] t1)) (unit_vec (raw_vec U [t1, t2] t2)) \<le> 1"
    by (intro tfidf_compare_unit_range raw_vec_nonneg)
  ultimately show "\<exists>r. compare_all U t1 t2 = Inr r \<and> 0 \<le> jaccard r \<and> jaccard r \<le> 1
        \<and> 0 \<le> tfidf r \<and> tfidf r \<le> 1"
    using r by simp
next
  assume "length fp1 = 5 \<and> length fp2 = 5
        \<and> list_all (\<lambda>x. 0 \<le> x) fp1 \<and> list_all (\<lambda>x. 0 \<le> x) fp2"
  then show "\<exists>s. compare fp1 fp2 epsilon_default = Inr s \<and> 0 \<le> s \<and> s \<le> 1"
    by (intro compare_nonneg_range) (simp_all add: epsilon_default_def)
qed

theorem score_ranges_witness:
  "(\<exists>r. compare_all ascii_db (str ''a b'') (str ''b c'') = Inr r
        \<and> 0 \<le> jaccard r \<and> jaccard r \<le> 1 \<and> 0 \<le> tfidf r \<and> tfidf r \<le> 1)
   \<and> length [2, 7 / 2, 1 / 2, 1, 1 :: real] = 5 \<and> length [1, 1, 0, 1, 1 :: real] = 5
   \<and> list_all (\<lambda>x. 0 \<le> x) [2, 7 / 2, 1 / 2, 1, 1 :: real]
   \<and> list_all (\<lambda>x. 0 \<le> x) [1, 1, 0, 1, 1 :: real]
   \<and> (\<exists>s. compare [2, 7 / 2, 1 / 2, 1, 1] [1, 1, 0, 1, 1] epsilon_default = Inr s
          \<and> 0 \<le> s \<and> s \<le> 1)"
  using score_ranges [of ascii_db "str ''a b''" "str ''b c''"
      "[2, 7 / 2, 1 / 2, 1, 1]" "[1, 1, 0, 1, 1]"]
  by simp

text \<open>
  The lower bound is attained, so the interval is not open at \<open>0\<close>: against the
  all-zero fingerprint every difference is \<open>1 / (1 + 1e-8)\<close>, the score before
  rounding is below \<open>0.00005\<close>, and it rounds to \<open>0.0\<close>. The two vectors are the
  fingerprints of the texts \<^verbatim>\<open>"a."\<close> and \<^verbatim>\<open>""\<close>.
\<close>

theorem score_ranges_counterexample:
  "compute_fingerprint ascii_db (str ''a.'') = Inr [1, 1, 1, 1, 1]
   \<and> compute_fingerprint ascii_db [] = Inr [0, 0, 0, 0, 0]
   \<and> compare [1, 1, 1, 1, 1] [0, 0, 0, 0, 0] epsilon_default = Inr 0"
  by code_simp

text \<open>
  C6. \<^verbatim>\<open>compare_all\<close> returns a complete result for every pair of strings and never
  raises. The denominators that can be zero are guarded: a text without word tokens has
  the three word-based fingerprint components \<open>0.0\<close>, a text without sentences the two
  sentence-based ones; an empty word union gives the Jaccard score \<open>0.0\<close>; a vector of
  norm \<open>0\<close> is returned unchanged; and with an empty shared vocabulary the TF-IDF
  score is \<open>0.0\<close>.
\<close>

theorem compare_all_never_raises:
  "(\<exists>r. compare_all U t1 t2 = Inr r
        \<and> (findall_words U (lower U t1) = [] \<and> findall_words U (lower U t2) = []
             \<longrightarrow> jaccard r = 0 \<and> tfidf r = 0))
   \<and> (findall_words U (lower U t1) = []
        \<longrightarrow> (\<exists>a e. compute_fingerprint U t1 = Inr [a, 0, 0, 0, e]))
   \<and> (map (str_strip U) (filter (\<lambda>s. str_strip U s \<noteq> []) (re_split_terminal t1)) = []
        \<longrightarrow> (\<exists>b c d. compute_fingerprint U t1 = Inr [0, b, c, d, 0]))
   \<and> (sum_list (map (\<lambda>x. x * x) v) = 0 \<longrightarrow> normalize_vec v = Inr v)
   \<and> tfidf_compare [] [] = 0"
proof -
  obtain s j where j: "jaccard_compute U t1 t2 = Inr j"
    and r: "compare_all U t1 t2 = Inr \<lparr>stylistic = s, jaccard = j,
       tfidf = tfidf_compare (unit_vec (raw_vec U [t1, t2] t1))
                 (unit_vec (raw_vec U [t1, t2] t2))\<rparr>"
    using compare_all_closed [of U t1 t2] by auto
  have "findall_words U (lower U t1) = [] \<and> findall_words U (lower U t2) = [] \<longrightarrow>
      j = 0 \<and> tfidf_compare (unit_vec (raw_vec U [t1, t2] t1))
                 (unit_vec (raw_vec U [t1, t2] t2)) = 0"
    using j jaccard_no_words [of U t1 t2] tfidf_no_words [of U t1 t2] by simp
  then have "\<exists>r. compare_all U t1 t2 = Inr r
        \<and> (findall_words U (lower U t1) = [] \<and> findall_words U (lower U t2) = []
             \<longrightarrow> jaccard r = 0 \<and> tfidf r = 0)"
    using r by simp
  moreover have "tfidf_compare [] [] = 0" by (simp add: tfidf_compare_def)
  ultimately show ?thesis
    using fingerprint_no_words [of U t1] fingerprint_no_sentences [of U t1]
      normalize_vec_zero [of v]
    by blast
qed

theorem compare_all_never_raises_witness:
  "(\<exists>r. compare_all ascii_db (str ''!?'') (str '' : '') = Inr r \<and> jaccard r = 0 \<and> tfidf r = 0)
   \<and> (\<exists>a e. compute_fingerprint ascii_db (str ''!?'') = Inr [a, 0, 0, 0, e])
   \<and> (\<exists>b c d. compute_fingerprint ascii_db (str ''!?'') = Inr [0, b, c, d, 0])
   \<and> normalize_vec [0, 0] = Inr [0, 0]"
proof -
  have w1: "findall_words ascii_db (lower ascii_db (str ''!?'')) = []" by code_simp
  have w2: "findall_words ascii_db (lower ascii_db (str '' : '')) = []" by code_simp
  have s1: "map (str_strip ascii_db)
      (filter (\<lambda>s. str_strip ascii_db s \<noteq> []) (re_split_terminal (str ''!?''))) = []"
    by code_simp
  have z: "sum_list (map (\<lambda>x. x * x) [0, 0 :: real]) = 0" by simp
  show ?thesis
    using compare_all_never_raises [of ascii_db "str ''!?''" "str '' : ''" "[0, 0]"] w1 w2 s1 z
    by simp
qed

text \<open>
  C10 (as amended). \<^verbatim>\<open>TfIdfSimilarity.compare\<close> is total on vectors of any
  lengths: it returns \<open>0.0\<close> whenever one of the two vectors is empty, and otherwise the
  dot product over the common prefix of positions, rounded to four decimals; positions
  beyond the shorter length are ignored.
\<close>

theorem tfidf_compare_total:
  "tfidf_compare v1 v2 =
     (if v1 = [] \<or> v2 = [] then 0
      else py_round (\<Sum>k<min (length v1) (length v2). v1 ! k * v2 ! k) 4)"
  using dot_sum_nth [of v1 v2] by (simp add: tfidf_compare_dot)

text \<open>
  The result \<open>0.0\<close> does not characterise an empty argument: two non-empty orthogonal
  vectors give \<open>0.0\<close> as well.
\<close>

theorem tfidf_compare_total_counterexample:
  "tfidf_compare [1, 0] [0, 1] = 0 \<and> [1, 0 :: real] \<noteq> [] \<and> [0, 1 :: real] \<noteq> []"
  by (simp add: tfidf_compare_def)

text \<open>
  C7. For every term of the vocabulary built over \<open>N\<close> texts the IDF weight is
  \<open>ln ((N + 1) / (df + 1)) + 1\<close>, where \<open>df\<close> is the number of texts that contain
  the term; the weight is strictly positive, it is exactly \<open>1\<close> for a term present in
  all \<open>N\<close> texts, and computing it never divides by zero: the constructor returns.
\<close>

theorem idf_smoothed:
  "\<exists>m. tfidf_init U txts = Inr m \<and> texts m = txts \<and> vocab m = build_vocab U txts \<and>
     (\<forall>w\<in>set (vocab m). \<exists>x. idf m w = Some x
        \<and> x = ln (real (length txts + 1)
                 / real (length (filter (\<lambda>t. w \<in> set (findall_words U (lower U t))) txts) + 1))
              + 1
        \<and> 0 < x
        \<and> (length (filter (\<lambda>t. w \<in> set (findall_words U (lower U t))) txts) = length txts
             \<longrightarrow> x = 1))"
proof -
  let ?m = "\<lparr>texts = txts, vocab = build_vocab U txts,
     idf = (\<lambda>w. if w \<in> set (build_vocab U txts) then Some (idf_weight U txts w) else None)\<rparr>"
  have "\<exists>x. idf ?m w = Some x
        \<and> x = ln (real (length txts + 1)
                 / real (length (filter (\<lambda>t. w \<in> set (findall_words U (lower U t))) txts) + 1))
              + 1
        \<and> 0 < x
        \<and> (length (filter (\<lambda>t. w \<in> set (findall_words U (lower U t))) txts) = length txts
             \<longrightarrow> x = 1)" if "w \<in> set (vocab ?m)" for w
  proof -
    have "idf ?m w = Some (idf_weight U txts w)" using that by simp
    moreover have "0 < idf_weight U txts w" using idf_weight_ge_one [of U txts w] by simp
    moreover have "idf_weight U txts w = ln (real (length txts + 1)
        / real (length (filter (\<lambda>t. w \<in> set (findall_words U (lower U t))) txts) + 1)) + 1"
      by (simp add: idf_weight_def df_count_def)
    moreover have
      "length (filter (\<lambda>t. w \<in> set (findall_words U (lower U t))) txts) = length txts
             \<longrightarrow> idf_weight U txts w = 1"
      using idf_weight_all [of U txts w] by (simp add: df_count_def)
    ultimately show ?thesis by simp
  qed
  then have all: "\<forall>w\<in>set (vocab ?m). \<exists>x. idf ?m w = Some x
        \<and> x = ln (real (length txts + 1)
                 / real (length (filter (\<lambda>t. w \<in> set (findall_words U (lower U t))) txts) + 1))
              + 1
        \<and> 0 < x
        \<and> (length (filter (\<lambda>t. w \<in> set (findall_words U (lower U t))) txts) = length txts
             \<longrightarrow> x = 1)"
    by blast
  have init: "tfidf_init U txts = Inr ?m" by (rule tfidf_init_closed)
  have sel: "texts ?m = txts" "vocab ?m = build_vocab U txts" by simp_all
  show ?thesis
    by (rule exI [of _ ?m]) (intro conjI init sel all)
qed

theorem idf_smoothed_witness:
  "\<exists>m. tfidf_init ascii_db [str ''Red fox'', str ''red hen''] = Inr m
      \<and> vocab m = [str ''fox'', str ''hen'', str ''red'']
      \<and> idf m (str ''red'') = Some 1
      \<and> idf m (str ''fox'') = Some (ln (3 / 2) + 1)
      \<and> (\<exists>x. idf m (str ''hen'') = Some x \<and> 0 < x)"
proof -
  let ?T = "[str ''Red fox'', str ''red hen'']"
  have v: "build_vocab ascii_db ?T = [str ''fox'', str ''hen'', str ''red'']" by code_simp
  have f: "length (filter (\<lambda>t. str ''fox'' \<in> set (findall_words ascii_db (lower ascii_db t))) ?T)
      = 1"
    by code_simp
  have r: "length (filter (\<lambda>t. str ''red'' \<in> set (findall_words ascii_db (lower ascii_db t))) ?T)
      = 2"
    by code_simp
  from idf_smoothed [of ascii_db ?T]
  obtain m where m: "tfidf_init ascii_db ?T = Inr m" "vocab m = build_vocab ascii_db ?T"
    and a: "\<forall>w\<in>set (vocab m). \<exists>x. idf m w = Some x
        \<and> x = ln (real (length ?T + 1)
            / real (length (filter (\<lambda>t. w \<in> set (findall_words ascii_db (lower ascii_db t))) ?T)
                      + 1)) + 1
        \<and> 0 < x
        \<and> (length (filter (\<lambda>t. w \<in> set (findall_words ascii_db (lower ascii_db t))) ?T)
              = length ?T
             \<longrightarrow> x = 1)"
    by blast
  have vm: "vocab m = [str ''fox'', str ''hen'', str ''red'']" using m(2) v by simp
  have "idf m (str ''red'') = Some 1" using a [rule_format, of "str ''red''"] vm r by auto
  moreover have "idf m (str ''fox'') = Some (ln (3 / 2) + 1)"
    using a [rule_format, of "str ''fox''"] vm f by auto
  moreover have "\<exists>x. idf m (str ''hen'') = Some x \<and> 0 < x"
    using a [rule_format, of "str ''hen''"] vm by auto
  ultimately show ?thesis using m(1) vm by blast
qed

text \<open>
  C2 (as amended). Scenario B: for \<^verbatim>\<open>"Cats run."\<close> and \<^verbatim>\<open>"Dogs run."\<close> both
  fingerprints are \<open>[2.0, 3.5, 0.5, 1.0, 1.0]\<close>, the word lists are \<open>cats, run\<close> and
  \<open>dogs, run\<close>, the vocabulary is \<open>cats, dogs, run\<close> with
  \<open>idf(cats) = idf(dogs) = ln (3/2) + 1\<close> and \<open>idf(run) = 1\<close>, and
  \<^verbatim>\<open>compare_all\<close> returns \<open>stylistic = 1.0\<close>, \<open>jaccard = 0.3333\<close> and
  \<open>tfidf = 0.3361\<close>: the dot product of the two normalised vectors is
  \<open>1 / ((ln (3/2) + 1)\<^sup>2 + 1)\<close>, about \<open>0.336097\<close>. This holds with every
  character table that is the ASCII one below code point 128.
\<close>

theorem cats_dogs_scores:
  assumes "agrees_on_ascii U"
  shows "compute_fingerprint U (str ''Cats run.'') = Inr [2, 7 / 2, 1 / 2, 1, 1]
   \<and> compute_fingerprint U (str ''Dogs run.'') = Inr [2, 7 / 2, 1 / 2, 1, 1]
   \<and> findall_words U (lower U (str ''Cats run.'')) = [str ''cats'', str ''run'']
   \<and> findall_words U (lower U (str ''Dogs run.'')) = [str ''dogs'', str ''run'']
   \<and> (\<exists>m. tfidf_init U [str ''Cats run.'', str ''Dogs run.''] = Inr m
         \<and> vocab m = [str ''cats'', str ''dogs'', str ''run'']
         \<and> idf m (str ''cats'') = Some (ln (3 / 2) + 1)
         \<and> idf m (str ''dogs'') = Some (ln (3 / 2) + 1)
         \<and> idf m (str ''run'') = Some 1)
   \<and> compare_all U (str ''Cats run.'') (str ''Dogs run.'')
       = Inr \<lparr>stylistic = 1, jaccard = 3333 / 10000, tfidf = 3361 / 10000\<rparr>"
proof -
  note a = ascii_literals(1,2)
  have l: "list_all ascii_text [str ''Cats run.'', str ''Dogs run.'']" using a by simp
  have f: "compute_fingerprint U (str ''Cats run.'') = Inr [2, 7 / 2, 1 / 2, 1, 1]"
    "compute_fingerprint U (str ''Dogs run.'') = Inr [2, 7 / 2, 1 / 2, 1, 1]"
    using scenario_b_fingerprints by (simp_all add: compute_fingerprint_ascii [OF assms] a)
  have t: "findall_words U (lower U (str ''Cats run.'')) = [str ''cats'', str ''run'']"
    "findall_words U (lower U (str ''Dogs run.'')) = [str ''dogs'', str ''run'']"
    using scenario_b_tokens(1,2) by (simp_all add: tokens_ascii [OF assms] a)
  have m: "\<exists>m. tfidf_init U [str ''Cats run.'', str ''Dogs run.''] = Inr m
         \<and> vocab m = [str ''cats'', str ''dogs'', str ''run'']
         \<and> idf m (str ''cats'') = Some (ln (3 / 2) + 1)
         \<and> idf m (str ''dogs'') = Some (ln (3 / 2) + 1)
         \<and> idf m (str ''run'') = Some 1"
    using scenario_b_model unfolding tfidf_init_ascii [OF assms l] .
  have r: "compare_all U (str ''Cats run.'') (str ''Dogs run.'')
       = Inr \<lparr>stylistic = 1, jaccard = 3333 / 10000, tfidf = 3361 / 10000\<rparr>"
    using assms by (rule scenario_b_any_table)
  show ?thesis using f t m r by blast
qed

theorem cats_dogs_scores_witness:
  "agrees_on_ascii ascii_db
   \<and> compare_all ascii_db (str ''Cats run.'') (str ''Dogs run.'')
       = Inr \<lparr>stylistic = 1, jaccard = 3333 / 10000, tfidf = 3361 / 10000\<rparr>"
  using cats_dogs_scores [OF agrees_ascii_db] agrees_ascii_db by blast

text \<open>The value \<open>0.3362\<close> of the scenario as first stated is not the one returned.\<close>

theorem cats_dogs_scores_counterexample:
  "compare_all ascii_db (str ''Cats run.'') (str ''Dogs run.'')
     \<noteq> Inr \<lparr>stylistic = 1, jaccard = 3333 / 10000, tfidf = 3362 / 10000\<rparr>"
  by (simp add: scenario_b_eval)

end
